theory Spec2Isabelle
  imports Main "HOL-Library.Word" "HOL-Library.List_Lexorder" "HOL-Library.Char_ord" "HOL-Library.AList"
begin

section \<open>Annotated hex dumps (package lhex): shared types\<close>

text \<open>
  Data bytes are Go's \<open>byte\<close> (8 bit words); text is a list of \<open>char\<close>, one per byte
  of the line. Offsets are Go's \<open>int64\<close>, modelled as \<open>int\<close> with the two's complement
  wrap-around written out by \<open>i64\<close>. Every Go error value and every run-time panic of
  the code is a value of \<open>error\<close>; the messages of \<open>fmt.Errorf\<close> are named by their
  leading words.
\<close>

type_synonym byte = "8 word"

datatype error =
    EOF                 \<comment> \<open>io.EOF\<close>
  | ErrLength           \<comment> \<open>hex.ErrLength, odd number of digits\<close>
  | InvalidByteError    \<comment> \<open>hex.InvalidByteError\<close>
  | TooManyCharacters   \<comment> \<open>"too many characters reading hex string"\<close>
  | IllegalCharacter    \<comment> \<open>"illegal character ... reading hex string"\<close>
  | OffsetTooLarge      \<comment> \<open>"offset too large"\<close>
  | IllegalLabelText    \<comment> \<open>"illegal text after label"\<close>
  | OffsetRewind        \<comment> \<open>"file contents attempted rewind"\<close>
  | InvalidWhence       \<comment> \<open>"invalid whence"\<close>
  | NegativeSeek        \<comment> \<open>"seek offset must not be negative"\<close>
  | Panic               \<comment> \<open>a run-time panic: index or slice out of range, explicit panic\<close>

definition i64 :: "int \<Rightarrow> int" where
  "i64 x = signed_take_bit 63 x"

text \<open>Go's \<open>%\<close> truncates towards zero: the remainder has the sign of the dividend.\<close>

definition go_rem :: "int \<Rightarrow> int \<Rightarrow> int" where
  "go_rem a b = sgn a * (\<bar>a\<bar> mod \<bar>b\<bar>)"

text \<open>The slice expression \<open>xs[i:j]\<close> for \<open>0 \<le> i \<le> j \<le> len(xs)\<close>.\<close>

definition slice :: "'a list \<Rightarrow> int \<Rightarrow> int \<Rightarrow> 'a list" where
  "slice xs i j = take (nat (j - i)) (drop (nat i) xs)"

section \<open>The scanner\<close>

text \<open>
  The fields \<open>line\<close>, \<open>ch\<close>, \<open>off\<close> and \<open>eol\<close> of the Go \<open>scanner\<close>. Its reader
  \<open>rd\<close> is the text that is still unread; \<open>decodeLine\<close> below takes it and returns
  what is left of it.
\<close>

record scanner =
  line :: string
  ch :: char
  off :: int
  eol :: bool

text \<open>\<open>scanner.next\<close>. The index \<open>off\<close> is never below \<open>-1\<close>: \<open>rewind\<close> refuses it.\<close>

definition scan_next :: "scanner \<Rightarrow> scanner" where
  "scan_next d =
     (if off d < int (length (line d)) - 1
      then (let k = off d + 1; c = line d ! nat k
            in d\<lparr>ch := c, off := k, eol := (c = CHR 0x0A)\<rparr>)
      else d\<lparr>ch := CHR 0x00, eol := True\<rparr>)"

definition rewind :: "int \<Rightarrow> scanner \<Rightarrow> error + scanner" where
  "rewind i d =
     (if i > 0 \<and> i = off d then Inr d
      else if i < 0 then Inl Panic
      else Inr (scan_next (d\<lparr>off := i - 1, eol := False\<rparr>)))"

definition isHex :: "char \<Rightarrow> bool" where
  "isHex b = (b \<ge> CHR ''0'' \<and> b \<le> CHR ''9'' \<or> b \<ge> CHR ''A'' \<and> b \<le> CHR ''F'')"

definition isLabel :: "char \<Rightarrow> bool \<Rightarrow> bool" where
  "isLabel b notFirst =
     (b \<ge> CHR ''A'' \<and> b \<le> CHR ''Z'' \<or> b \<ge> CHR ''a'' \<and> b \<le> CHR ''z'' \<or> b = CHR ''_'' \<or> b = CHR ''-''
      \<or> notFirst \<and> b \<ge> CHR ''0'' \<and> b \<le> CHR ''9'')"

text \<open>
  The four loops \<open>for cond(d.ch) { d.next() }\<close>. Each ends: at the end of the line
  \<open>next\<close> sets \<open>ch\<close> to 0, which none of the conditions accepts.
\<close>

definition togo :: "scanner \<Rightarrow> nat" where
  "togo d = Suc (nat (int (length (line d)) - off d))"

function skipSpaces :: "scanner \<Rightarrow> scanner" where
  "skipSpaces d = (if ch d = CHR '' '' then skipSpaces (scan_next d) else d)"
  by pat_completeness auto
termination
  by (relation "measure (\<lambda>d. if ch d = CHR '' '' then togo d else 0)")
     (auto simp: scan_next_def togo_def Let_def)

function skipSpacesOrHyphen :: "scanner \<Rightarrow> scanner" where
  "skipSpacesOrHyphen d =
     (if ch d = CHR '' '' \<or> ch d = CHR ''-'' then skipSpacesOrHyphen (scan_next d) else d)"
  by pat_completeness auto
termination
  by (relation "measure (\<lambda>d. if ch d = CHR '' '' \<or> ch d = CHR ''-'' then togo d else 0)")
     (auto simp: scan_next_def togo_def Let_def)

function skipHex :: "scanner \<Rightarrow> scanner" where
  "skipHex d = (if isHex (ch d) then skipHex (scan_next d) else d)"
  by pat_completeness auto
termination
  by (relation "measure (\<lambda>d. if isHex (ch d) then togo d else 0)")
     (auto simp: scan_next_def togo_def Let_def isHex_def)

function skipLabel :: "bool \<Rightarrow> scanner \<Rightarrow> scanner" where
  "skipLabel notFirst d = (if isLabel (ch d) notFirst then skipLabel notFirst (scan_next d) else d)"
  by pat_completeness auto
termination
  by (relation "measure (\<lambda>(n, d). if isLabel (ch d) n then togo d else 0)")
     (auto simp: scan_next_def togo_def Let_def isLabel_def)

declare skipSpaces.simps [simp del] skipSpacesOrHyphen.simps [simp del]
  skipHex.simps [simp del] skipLabel.simps [simp del]

definition skipComment :: "scanner \<Rightarrow> scanner" where
  "skipComment d = (if ch d = CHR ''#'' then d\<lparr>eol := True\<rparr> else d)"

subsection \<open>encoding/hex and encoding/binary\<close>

text \<open>
  \<open>hex.Decode(dst, src)\<close> of the Go library: every pair of digits is checked and then
  stored into the next cell of \<open>dst\<close>; storing past \<open>len(dst)\<close> panics. The result is
  the bytes stored (their number is the returned \<open>n\<close>) and the error, if any.
\<close>

definition fromHexChar :: "char \<Rightarrow> byte option" where
  "fromHexChar c =
     (if CHR ''0'' \<le> c \<and> c \<le> CHR ''9'' then Some (of_char c - of_char (CHR ''0''))
      else if CHR ''a'' \<le> c \<and> c \<le> CHR ''f'' then Some (of_char c - of_char (CHR ''a'') + 10)
      else if CHR ''A'' \<le> c \<and> c \<le> CHR ''F'' then Some (of_char c - of_char (CHR ''A'') + 10)
      else None)"

fun hex_Decode :: "nat \<Rightarrow> string \<Rightarrow> error + (byte list \<times> error option)" where
  "hex_Decode dstlen (p # q # src) =
     (case fromHexChar p of
        None \<Rightarrow> Inr ([], Some InvalidByteError)
      | Some a \<Rightarrow>
         (case fromHexChar q of
            None \<Rightarrow> Inr ([], Some InvalidByteError)
          | Some b \<Rightarrow>
             if dstlen = 0 then Inl Panic
             else (case hex_Decode (dstlen - 1) src of
                     Inl e \<Rightarrow> Inl e
                   | Inr (bs, e) \<Rightarrow> Inr ((a * 16 + b) # bs, e))))"
| "hex_Decode dstlen [p] =
     (case fromHexChar p of
        None \<Rightarrow> Inr ([], Some InvalidByteError)
      | Some a \<Rightarrow> Inr ([], Some ErrLength))"
| "hex_Decode dstlen [] = Inr ([], None)"

text \<open>
  \<open>binary.BigEndian.Uint64(b)\<close>: it reads \<open>b[7]\<close> first, which panics on a slice of fewer
  than 8 bytes, and combines \<open>b[0]\<close> to \<open>b[7]\<close>. Then the conversion to \<open>int64\<close>.
\<close>

definition BigEndian_Uint64 :: "byte list \<Rightarrow> error + int" where
  "BigEndian_Uint64 b =
     (if length b < 8 then Inl Panic
      else Inr (foldl (\<lambda>acc x. acc * 256 + uint x) 0 (take 8 b)))"

definition int64 :: "int \<Rightarrow> int" where
  "int64 v = i64 v"

subsection \<open>Fields of a line\<close>

text \<open>
  \<open>decodeHexBytes(buf)\<close> with \<open>len(buf) = buflen\<close>: the bytes stored into \<open>buf\<close>
  (\<open>n\<close> is their number) and the error.
\<close>

definition decodeHexBytes :: "nat \<Rightarrow> scanner \<Rightarrow> error + (scanner \<times> byte list \<times> error option)" where
  "decodeHexBytes buflen d =
     (let start = off d; d1 = skipHex d
      in case hex_Decode buflen (slice (line d1) start (off d1)) of
           Inl p \<Rightarrow> Inl p
         | Inr (bs, e) \<Rightarrow>
            (case rewind (start + int (length bs) * 2) d1 of
               Inl p \<Rightarrow> Inl p
             | Inr d2 \<Rightarrow>
                Inr (d2, bs,
                     if isHex (ch d2) then Some TooManyCharacters
                     else if \<not> eol d2 \<and> ch d2 \<noteq> CHR '' '' \<and> ch d2 \<noteq> CHR ''-'' then Some IllegalCharacter
                     else e)))"

text \<open>\<open>rightAlign(data[:n])\<close> on a slice of capacity \<open>c\<close>.\<close>

definition rightAlign :: "nat \<Rightarrow> byte list \<Rightarrow> byte list" where
  "rightAlign c data = replicate (c - length data) 0 @ data"

definition decodeOffset :: "scanner \<Rightarrow> error + (scanner \<times> int)" where
  "decodeOffset d =
     (case decodeHexBytes 8 d of
        Inl p \<Rightarrow> Inl p
      | Inr (d1, bs, Some e) \<Rightarrow> Inl e
      | Inr (d1, bs, None) \<Rightarrow>
         (case BigEndian_Uint64 (rightAlign 8 bs) of
            Inl p \<Rightarrow> Inl p
          | Inr v \<Rightarrow>
             (let offset = int64 v
              in if offset < 0 then Inl OffsetTooLarge else Inr (d1, offset))))"

text \<open>\<open>decodeLabel\<close>; \<open>notFirst\<close> is declared and never set, so it is \<open>False\<close>.\<close>

definition decodeLabel :: "scanner \<Rightarrow> error + string" where
  "decodeLabel d =
     (let notFirst = False; start = off d; d1 = skipLabel notFirst d;
          label = slice (line d1) start (off d1);
          d2 = skipComment (skipSpaces d1)
      in if \<not> eol d2 then Inl IllegalLabelText else Inr label)"

text \<open>
  The byte loop of \<open>scanLine\<close> on \<open>data = make([]byte, 16)\<close>: cell \<open>i\<close> receives what
  \<open>decodeHexBytes(data[i:i+1])\<close> stores. When the loop runs to \<open>i = len(data)\<close> the
  final \<open>data[:i+1]\<close> is out of range.
\<close>

definition store :: "byte list \<Rightarrow> nat \<Rightarrow> byte list \<Rightarrow> byte list" where
  "store data i bs = (case bs of [] \<Rightarrow> data | b # _ \<Rightarrow> data[i := b])"

lemma length_store [simp]: "length (store data i bs) = length data"
  by (cases bs) (simp_all add: store_def)

function scanBytes :: "nat \<Rightarrow> byte list \<Rightarrow> scanner \<Rightarrow> error + byte list" where
  "scanBytes i data d =
     (if i < length data then
        (case decodeHexBytes 1 d of
           Inl p \<Rightarrow> Inl p
         | Inr (d1, bs, Some e) \<Rightarrow> Inl e
         | Inr (d1, bs, None) \<Rightarrow>
            (let data' = store data i bs; d2 = skipSpacesOrHyphen d1
             in if \<not> isHex (ch d2) then Inr (take (i + 1) data')
                else scanBytes (i + 1) data' d2))
      else Inl Panic)"
  by pat_completeness auto
termination
  by (relation "measure (\<lambda>(i, data, d). length data - i)") simp_all

declare scanBytes.simps [simp del]

text \<open>A scanned line: \<open>offset, hasOffset, data, label\<close>; \<open>err\<close> is the left summand.\<close>

type_synonym linerec = "int \<times> bool \<times> byte list \<times> string"

definition scanData :: "int \<Rightarrow> bool \<Rightarrow> scanner \<Rightarrow> error + linerec" where
  "scanData offset hasOffset d =
     (let d1 = skipSpacesOrHyphen d
      in if isHex (ch d1) then
           (case scanBytes 0 (replicate 16 0) d1 of
              Inl e \<Rightarrow> Inl e
            | Inr data \<Rightarrow> Inr (offset, hasOffset, data, []))
         else Inr (offset, hasOffset, [], []))"

definition scanLine :: "scanner \<Rightarrow> error + linerec" where
  "scanLine d =
     (if isHex (ch d) then
        (case decodeOffset d of
           Inl e \<Rightarrow> Inl e
         | Inr (d1, offset) \<Rightarrow> scanData offset True d1)
      else if ch d = CHR '':'' then
        (case decodeLabel (scan_next d) of
           Inl e \<Rightarrow> Inl e
         | Inr label \<Rightarrow> Inr (0, False, [], label))
      else scanData 0 False d)"

text \<open>
  \<open>bufio.Reader.ReadBytes('\n')\<close> on the unread text: the line up to and including the
  newline, or the whole rest and \<open>io.EOF\<close> when there is no newline.
\<close>

definition ReadBytes :: "string \<Rightarrow> string \<times> string \<times> error option" where
  "ReadBytes rd =
     (case dropWhile (\<lambda>c. c \<noteq> CHR 0x0A) rd of
        [] \<Rightarrow> (rd, [], Some EOF)
      | _ # rest \<Rightarrow> (takeWhile (\<lambda>c. c \<noteq> CHR 0x0A) rd @ [CHR 0x0A], rest, None))"

text \<open>The scanner state after \<open>d.line = l; d.rewind(0)\<close>.\<close>

definition start_line :: "string \<Rightarrow> error + scanner" where
  "start_line l = rewind 0 \<lparr>line = l, ch = CHR 0x00, off = 0, eol = False\<rparr>"

text \<open>What \<open>scanLine\<close> returns on the line \<open>l\<close>.\<close>

definition scan_text :: "string \<Rightarrow> error + linerec" where
  "scan_text l = (case start_line l of Inl p \<Rightarrow> Inl p | Inr d \<Rightarrow> scanLine d)"

text \<open>The offset that \<open>decodeOffset\<close> reads at the start of the line \<open>l\<close>.\<close>

definition offset_field :: "string \<Rightarrow> error + int" where
  "offset_field l =
     (case start_line l of Inl p \<Rightarrow> Inl p | Inr d \<Rightarrow> map_sum id snd (decodeOffset d))"

definition decodeLine :: "string \<Rightarrow> (error + linerec) \<times> string" where
  "decodeLine rd =
     (case ReadBytes rd of
        (l, rest, e) \<Rightarrow>
          if e \<noteq> None \<and> (e \<noteq> Some EOF \<or> length l = 0) then (Inl (the e), rest)
          else (scan_text l, rest))"

section \<open>The label table\<close>

text \<open>
  \<open>Labels\<close>: the Go map \<open>lmap\<close> is an association list with one entry per name (a
  \<open>nil\<close> map and an empty one are both \<open>[]\<close>; the code treats them alike, \<open>init\<close>
  only allocates); \<open>offLabels\<close> is a map from offsets to the names bound to them.
  \<open>sort.Strings\<close> and \<open>sort.Slice\<close> with \<open><\<close> are \<open>sort\<close>: strings compare byte by byte.
\<close>

record Labels =
  lmap :: "(string \<times> int) list"
  offLabels :: "int \<rightharpoonup> string list"
  offsets :: "int list"

definition Labels_zero :: Labels where
  "Labels_zero = \<lparr>lmap = [], offLabels = Map.empty, offsets = []\<rparr>"

definition Labels_Get :: "Labels \<Rightarrow> string \<Rightarrow> int option" where
  "Labels_Get l name = map_of (lmap l) name"

definition Labels_init :: "Labels \<Rightarrow> Labels" where
  "Labels_init l = (if lmap l = [] then l\<lparr>lmap := [], offLabels := Map.empty\<rparr> else l)"

text \<open>\<open>append(m[k], name)\<close> on a map of slices: a missing key reads as the empty slice.\<close>

definition names_at :: "(int \<rightharpoonup> string list) \<Rightarrow> int \<Rightarrow> string list" where
  "names_at m k = (case m k of None \<Rightarrow> [] | Some ns \<Rightarrow> ns)"

definition sortOffsets :: "Labels \<Rightarrow> Labels" where
  "sortOffsets l = l\<lparr>offsets := sort (offsets l)\<rparr>"

text \<open>
  \<open>Reset\<close>. Go ranges over its maps in no fixed order; the three loops sort what they
  collect, so the order of the association list does not show in the result.
\<close>

definition Labels_Reset :: "Labels \<Rightarrow> (string \<times> int) list \<Rightarrow> Labels" where
  "Labels_Reset l labels =
     (let collected = fold (\<lambda>(name, off) m. m(off \<mapsto> names_at m off @ [name])) labels Map.empty;
          sorted_names = (\<lambda>off. map_option sort (collected off))
      in sortOffsets (l\<lparr>lmap := labels, offLabels := sorted_names,
                         offsets := remdups (map snd labels)\<rparr>))"

definition NewLabels :: "(string \<times> int) list \<Rightarrow> Labels" where
  "NewLabels m = Labels_Reset Labels_zero m"

definition Labels_Set :: "Labels \<Rightarrow> string \<Rightarrow> int \<Rightarrow> Labels" where
  "Labels_Set l0 name ofs =
     (let l = Labels_init l0
      in case map_of (lmap l) name of
           Some k \<Rightarrow>
             if k \<noteq> ofs then Labels_Reset l (AList.update name ofs (lmap l)) else l
         | None \<Rightarrow>
             (let l1 = l\<lparr>lmap := AList.update name ofs (lmap l)\<rparr>;
                  l2 = (if offLabels l1 ofs = None
                        then sortOffsets (l1\<lparr>offsets := offsets l1 @ [ofs]\<rparr>) else l1)
              in l2\<lparr>offLabels := (offLabels l2)(ofs \<mapsto> sort (names_at (offLabels l2) ofs @ [name]))\<rparr>))"

text \<open>\<open>labelIter\<close>; its field \<open>Labels\<close> is \<open>Names\<close> here.\<close>

record labelIter =
  Ofs :: int
  Names :: "string list"
  it_offLabels :: "int \<rightharpoonup> string list"
  it_iter :: "int list"

definition labelIter_zero :: labelIter where
  "labelIter_zero = \<lparr>Ofs = 0, Names = [], it_offLabels = Map.empty, it_iter = []\<rparr>"

definition labelIter_Next :: "labelIter \<Rightarrow> bool \<times> labelIter" where
  "labelIter_Next it =
     (case it_iter it of
        k # rest \<Rightarrow> (True, it\<lparr>Ofs := k, Names := names_at (it_offLabels it) k, it_iter := rest\<rparr>)
      | [] \<Rightarrow> (False, it\<lparr>Ofs := - 1, Names := []\<rparr>))"

function iter_loop :: "int \<Rightarrow> labelIter \<Rightarrow> labelIter" where
  "iter_loop ofs it =
     (case labelIter_Next it of
        (True, it') \<Rightarrow> if Ofs it' \<ge> ofs then it' else iter_loop ofs it'
      | (False, it') \<Rightarrow> it')"
  by pat_completeness auto
termination
  by (relation "measure (\<lambda>(ofs, it). length (it_iter it))")
     (auto simp: labelIter_Next_def split: list.splits)

declare iter_loop.simps [simp del]

text \<open>\<open>Labels.iter\<close>; the receiver may be the \<open>nil\<close> pointer.\<close>

definition Labels_iter :: "Labels option \<Rightarrow> int \<Rightarrow> labelIter" where
  "Labels_iter l ofs =
     iter_loop ofs (case l of
                      None \<Rightarrow> labelIter_zero
                    | Some t \<Rightarrow> labelIter_zero\<lparr>it_offLabels := offLabels t, it_iter := offsets t\<rparr>)"

section \<open>The decoder\<close>

text \<open>
  The fields of \<open>Decoder\<close>; \<open>rd\<close> is the unread text of its scanner and the unused
  field \<open>resolv\<close> is left out. A \<open>nil\<close> slice is the empty list: the code only tests
  slices for \<open>nil\<close> where \<open>nil\<close> and empty coincide.
\<close>

record Decoder =
  err :: "error option"
  labels :: Labels
  rd :: string
  started :: bool
  readyOfs :: int
  data :: "byte list"
  nextData :: "byte list"
  nextOffset :: int

definition NewDecoder :: "string \<Rightarrow> Decoder" where
  "NewDecoder r = \<lparr>err = None, labels = Labels_zero, rd = r, started = False, readyOfs = 0,
                    data = [], nextData = [], nextOffset = 0\<rparr>"

lemma decodeLine_shorter: "decodeLine r = (Inr x, rest) \<Longrightarrow> length rest < length r"
proof -
  assume a: "decodeLine r = (Inr x, rest)"
  show ?thesis
  proof (cases "dropWhile (\<lambda>c. c \<noteq> CHR 0x0A) r")
    case Nil
    with a have "r \<noteq> []" and "rest = []"
      by (auto simp: decodeLine_def ReadBytes_def split: if_splits)
    then show ?thesis by simp
  next
    case (Cons c cs)
    with a have "rest = cs"
      by (auto simp: decodeLine_def ReadBytes_def split: if_splits)
    moreover have "length (dropWhile (\<lambda>c. c \<noteq> CHR 0x0A) r) \<le> length r"
      by (rule length_dropWhile_le)
    ultimately show ?thesis using Cons by simp
  qed
qed

text \<open>
  The loop \<open>for len(resolv) > 0 { d.labels.Set(resolv[0].label, int64(resolv[0].rel)+pendOfs) ... }\<close>.
\<close>

definition commit :: "(string \<times> nat) list \<Rightarrow> int \<Rightarrow> Labels \<Rightarrow> Labels" where
  "commit resolv pendOfs ls =
     fold (\<lambda>(label, rel) l. Labels_Set l label (i64 (int rel + pendOfs))) resolv ls"

text \<open>
  The loop of \<open>nextContiguous\<close> with its locals \<open>pending\<close> and \<open>resolv\<close> (pairs of
  \<open>label\<close> and \<open>rel\<close>). The result \<open>Inr []\<close> is the Go result \<open>nil, nil\<close>.
\<close>

function nextContiguous_loop ::
  "byte list \<Rightarrow> (string \<times> nat) list \<Rightarrow> Decoder \<Rightarrow> (error + byte list) \<times> Decoder" where
  "nextContiguous_loop pending resolv d =
     (case decodeLine (rd d) of
        (Inl e, rest) \<Rightarrow>
          if length pending > 0 then (Inr pending, d\<lparr>rd := rest\<rparr>) else (Inl e, d\<lparr>rd := rest\<rparr>)
      | (Inr (lineOfs, hasOfs, ldata, label), rest) \<Rightarrow>
          if label \<noteq> [] then
            nextContiguous_loop pending (resolv @ [(label, length (data d))]) (d\<lparr>rd := rest\<rparr>)
          else if hasOfs then
            (let pendOfs = i64 (lineOfs - int (length pending));
                 d1 = d\<lparr>rd := rest, labels := commit resolv pendOfs (labels d)\<rparr>
             in if pendOfs < i64 (readyOfs d1 + int (length (data d1))) then (Inl OffsetRewind, d1)
                else if \<not> started d1 \<or> pendOfs > i64 (readyOfs d1 + int (length (data d1))) then
                  (Inr [], d1\<lparr>nextData := pending @ ldata, nextOffset := pendOfs\<rparr>)
                else if length (pending @ ldata) = 0 then
                  nextContiguous_loop pending [] (d1\<lparr>readyOfs := pendOfs\<rparr>)
                else (Inr (pending @ ldata), d1\<lparr>readyOfs := pendOfs\<rparr>))
          else nextContiguous_loop (pending @ ldata) resolv (d\<lparr>rd := rest\<rparr>))"
  by pat_completeness auto
termination
  by (relation "measure (\<lambda>(pending, resolv, d). length (rd d))")
     (auto dest: decodeLine_shorter [OF sym])

declare nextContiguous_loop.simps [simp del]

definition nextContiguous :: "Decoder \<Rightarrow> (error + byte list) \<times> Decoder" where
  "nextContiguous d = nextContiguous_loop [] [] (d\<lparr>started := True\<rparr>)"


subsection \<open>Unfolding the loop, and what it consumes\<close>

lemma scanBytes_length: "scanBytes i bs d = Inr r \<Longrightarrow> length r \<le> length bs"
proof (induction "length bs - i" arbitrary: i bs d rule: less_induct)
  case less
  show ?case
  proof (cases "decodeHexBytes 1 d")
    case (Inl e)
    with less.prems show ?thesis
      by (subst (asm) scanBytes.simps) (simp split: if_splits)
  next
    case (Inr x)
    obtain d1 w e where x: "x = (d1, w, e)" by (cases x) auto
    show ?thesis
    proof (cases "i < length bs \<and> e = None \<and> isHex (ch (skipSpacesOrHyphen d1))")
      case True
      with less.prems Inr x have "scanBytes (i + 1) (store bs i w) (skipSpacesOrHyphen d1) = Inr r"
        by (subst (asm) scanBytes.simps) (simp add: Let_def)
      from less.hyps[OF _ this] True show ?thesis by auto
    next
      case False
      with less.prems Inr x show ?thesis
        by (subst (asm) scanBytes.simps) (auto simp: Let_def split: if_splits option.splits)
    qed
  qed
qed

lemma decodeLine_data_length:
  "decodeLine r = (Inr (k, h, bs, l), rest) \<Longrightarrow> length bs \<le> 16"
  by (auto simp: decodeLine_def scan_text_def scanLine_def scanData_def Let_def
      split: if_splits sum.splits prod.splits dest!: scanBytes_length)

lemma decodeLine_rest_le: "decodeLine r = (x, rest) \<Longrightarrow> length rest \<le> length r"
proof -
  assume a: "decodeLine r = (x, rest)"
  have "length (dropWhile (\<lambda>c. c \<noteq> CHR 0x0A) r) \<le> length r"
    by (rule length_dropWhile_le)
  with a show ?thesis
    by (cases "dropWhile (\<lambda>c. c \<noteq> CHR 0x0A) r")
       (auto simp: decodeLine_def ReadBytes_def split: if_splits)
qed

lemma ncl_error:
  "decodeLine (rd d) = (Inl e, rest) \<Longrightarrow>
   nextContiguous_loop pending resolv d =
     (if pending \<noteq> [] then (Inr pending, d\<lparr>rd := rest\<rparr>) else (Inl e, d\<lparr>rd := rest\<rparr>))"
  by (subst nextContiguous_loop.simps) simp

lemma ncl_label:
  "decodeLine (rd d) = (Inr (lineOfs, hasOfs, ldata, label), rest) \<Longrightarrow> label \<noteq> [] \<Longrightarrow>
   nextContiguous_loop pending resolv d =
     nextContiguous_loop pending (resolv @ [(label, length (data d))]) (d\<lparr>rd := rest\<rparr>)"
  by (subst nextContiguous_loop.simps) simp

lemma ncl_plain:
  "decodeLine (rd d) = (Inr (lineOfs, False, ldata, []), rest) \<Longrightarrow>
   nextContiguous_loop pending resolv d =
     nextContiguous_loop (pending @ ldata) resolv (d\<lparr>rd := rest\<rparr>)"
  by (subst nextContiguous_loop.simps) simp

lemma ncl_offset:
  "decodeLine (rd d) = (Inr (lineOfs, True, ldata, []), rest) \<Longrightarrow>
   nextContiguous_loop pending resolv d =
     (let pendOfs = i64 (lineOfs - int (length pending));
          d1 = d\<lparr>rd := rest, labels := commit resolv pendOfs (labels d)\<rparr>
      in if pendOfs < i64 (readyOfs d + int (length (data d))) then (Inl OffsetRewind, d1)
         else if \<not> started d \<or> pendOfs > i64 (readyOfs d + int (length (data d))) then
           (Inr [], d1\<lparr>nextData := pending @ ldata, nextOffset := pendOfs\<rparr>)
         else if pending = [] \<and> ldata = [] then
           nextContiguous_loop [] [] (d1\<lparr>readyOfs := pendOfs\<rparr>)
         else (Inr (pending @ ldata), d1\<lparr>readyOfs := pendOfs\<rparr>))"
  by (subst nextContiguous_loop.simps) (auto simp: Let_def commit_def)

lemma nextContiguous_loop_unread:
  "nextContiguous_loop pending resolv d = (Inr bs, d') \<Longrightarrow>
   17 * length (rd d') + length bs \<le> 17 * length (rd d) + length pending \<and> data d' = data d"
proof (induction "length (rd d)" arbitrary: pending resolv d rule: less_induct)
  case less
  obtain x rest where dl: "decodeLine (rd d) = (x, rest)" by (cases "decodeLine (rd d)")
  show ?case
  proof (cases x)
    case (Inl e)
    with dl less.prems decodeLine_rest_le[OF dl] show ?thesis
      by (auto simp: ncl_error split: if_splits)
  next
    case (Inr r)
    obtain lineOfs hasOfs ldata label where r: "r = (lineOfs, hasOfs, ldata, label)"
      by (cases r) auto
    note dl' = dl[unfolded Inr r]
    have lt: "length rest < length (rd d)" using decodeLine_shorter[OF dl'] .
    have le16: "length ldata \<le> 16" using decodeLine_data_length[OF dl'] .
    have IH: "\<And>pending resolv d2. rd d2 = rest \<Longrightarrow> data d2 = data d \<Longrightarrow>
        nextContiguous_loop pending resolv d2 = (Inr bs, d') \<Longrightarrow>
        17 * length (rd d') + length bs \<le> 17 * length rest + length pending \<and> data d' = data d"
      using less.hyps lt by metis
    show ?thesis
    proof (cases "label \<noteq> []")
      case True
      from less.prems have "nextContiguous_loop pending (resolv @ [(label, length (data d))]) (d\<lparr>rd := rest\<rparr>) = (Inr bs, d')"
        by (simp add: ncl_label[OF dl' True])
      from IH[OF _ _ this] lt show ?thesis by simp
    next
      case False
      then have l: "label = []" by simp
      show ?thesis
      proof (cases hasOfs)
        case True
        then have h: "hasOfs = True" by simp
        note eq = ncl_offset[OF dl'[unfolded l h], of pending resolv]
        define pendOfs where "pendOfs = i64 (lineOfs - int (length pending))"
        define d1 where "d1 = d\<lparr>rd := rest, labels := commit resolv pendOfs (labels d)\<rparr>"
        define X where "X = i64 (readyOfs d + int (length (data d)))"
        have IH': "nextContiguous_loop [] [] (d1\<lparr>readyOfs := pendOfs\<rparr>) = (Inr bs, d') \<Longrightarrow> ?thesis"
          using IH[of "d1\<lparr>readyOfs := pendOfs\<rparr>" "[]" "[]"] lt by (simp add: d1_def)
        from less.prems[unfolded eq] IH' lt le16 show ?thesis
          by (auto simp: Let_def pendOfs_def d1_def split: if_splits)
      next
        case False
        then have nh: "hasOfs = False" by simp
        from less.prems have "nextContiguous_loop (pending @ ldata) resolv (d\<lparr>rd := rest\<rparr>) = (Inr bs, d')"
          by (simp add: ncl_plain[OF dl'[unfolded l nh]])
        from IH[OF _ _ this] lt le16 show ?thesis by simp
      qed
    qed
  qed
qed

lemma nextContiguous_loop_rd:
  "nextContiguous_loop pending resolv d = (x, d') \<Longrightarrow> length (rd d') \<le> length (rd d) \<and> data d' = data d"
proof (induction "length (rd d)" arbitrary: pending resolv d rule: less_induct)
  case less
  obtain y rest where dl: "decodeLine (rd d) = (y, rest)" by (cases "decodeLine (rd d)")
  show ?case
  proof (cases y)
    case (Inl e)
    with dl less.prems decodeLine_rest_le[OF dl] show ?thesis
      by (auto simp: ncl_error split: if_splits)
  next
    case (Inr r)
    obtain lineOfs hasOfs ldata label where r: "r = (lineOfs, hasOfs, ldata, label)"
      by (cases r) auto
    note dl' = dl[unfolded Inr r]
    have lt: "length rest < length (rd d)" using decodeLine_shorter[OF dl'] .
    have IH: "\<And>pending resolv d2. rd d2 = rest \<Longrightarrow> data d2 = data d \<Longrightarrow>
        nextContiguous_loop pending resolv d2 = (x, d') \<Longrightarrow>
        length (rd d') \<le> length rest \<and> data d' = data d"
      using less.hyps lt by metis
    show ?thesis
    proof (cases "label \<noteq> []")
      case True
      from less.prems have "nextContiguous_loop pending (resolv @ [(label, length (data d))]) (d\<lparr>rd := rest\<rparr>) = (x, d')"
        by (simp add: ncl_label[OF dl' True])
      from IH[OF _ _ this] lt show ?thesis by simp
    next
      case False
      then have l: "label = []" by simp
      show ?thesis
      proof (cases hasOfs)
        case True
        then have h: "hasOfs = True" by simp
        note eq = ncl_offset[OF dl'[unfolded l h], of pending resolv]
        define pendOfs where "pendOfs = i64 (lineOfs - int (length pending))"
        define d1 where "d1 = d\<lparr>rd := rest, labels := commit resolv pendOfs (labels d)\<rparr>"
        define X where "X = i64 (readyOfs d + int (length (data d)))"
        have IH': "nextContiguous_loop [] [] (d1\<lparr>readyOfs := pendOfs\<rparr>) = (x, d') \<Longrightarrow> ?thesis"
          using IH[of "d1\<lparr>readyOfs := pendOfs\<rparr>" "[]" "[]"] lt by (simp add: d1_def)
        from less.prems[unfolded eq] IH' lt show ?thesis
          by (auto simp: Let_def pendOfs_def d1_def split: if_splits)
      next
        case False
        then have nh: "hasOfs = False" by simp
        from less.prems have "nextContiguous_loop (pending @ ldata) resolv (d\<lparr>rd := rest\<rparr>) = (x, d')"
          by (simp add: ncl_plain[OF dl'[unfolded l nh]])
        from IH[OF _ _ this] lt show ?thesis by simp
      qed
    qed
  qed
qed


subsection \<open>Read and Next\<close>

text \<open>
  \<open>Decoder.Read(p)\<close> with \<open>len(p) = plen\<close>: the bytes copied into \<open>p\<close> and the error.
  After \<open>nn = copy(p[n:], d.data)\<close> the code runs \<open>copy(d.data, d.data[nn:])\<close>, which
  moves the rest of the buffer to its front (\<open>shifted\<close>), and then \<open>d.data = d.data[nn:]\<close>,
  which drops \<open>nn\<close> bytes again. The explicit panic at its end is the error \<open>Panic\<close>.
\<close>

function Read_loop :: "nat \<Rightarrow> byte list \<Rightarrow> Decoder \<Rightarrow> (byte list \<times> error option) \<times> Decoder" where
  "Read_loop plen p d =
     (if length p < plen then
        (if length (data d) > 0 then
           (let nn = min (plen - length p) (length (data d));
                shifted = drop nn (data d) @ drop (length (data d) - nn) (data d)
            in Read_loop plen (p @ take nn (data d))
                 (d\<lparr>data := drop nn shifted, readyOfs := i64 (readyOfs d + int nn)\<rparr>))
         else (case nextContiguous d of
                 (Inl e, d1) \<Rightarrow> ((p, Some e), d1\<lparr>data := [], err := Some e\<rparr>)
               | (Inr bs, d1) \<Rightarrow>
                   if bs = [] then ((p, Some EOF), d1\<lparr>data := []\<rparr>)
                   else Read_loop plen p (d1\<lparr>data := bs\<rparr>)))
      else ((p, None), d))"
  by pat_completeness auto
termination
  by (relation "measures [\<lambda>(plen, p, d). plen - length p, \<lambda>(plen, p, d). if data d = [] then 1 else 0]")
     (auto simp: min_def neq_Nil_conv)

declare Read_loop.simps [simp del]

definition Decoder_Read :: "nat \<Rightarrow> Decoder \<Rightarrow> (byte list \<times> error option) \<times> Decoder" where
  "Decoder_Read plen d =
     (if nextOffset d > 0 then (([], Some EOF), d)
      else (case Read_loop plen [] d of
              ((p, None), d') \<Rightarrow> if p = [] then (([], Some Panic), d') else ((p, None), d')
            | r \<Rightarrow> r))"

definition unread :: "Decoder \<Rightarrow> nat" where
  "unread d = 17 * length (rd d) + length (data d)"

lemma Read_loop_unread:
  "Read_loop plen p d = ((p', e), d') \<Longrightarrow> unread d' + length p' \<le> unread d + length p"
proof (induction plen p d rule: Read_loop.induct)
  case (1 plen p d)
  show ?case
  proof (cases "length p < plen")
    case False
    with "1.prems" show ?thesis by (subst (asm) Read_loop.simps) simp
  next
    case lt: True
    show ?thesis
    proof (cases "length (data d) > 0")
      case True
      define nn where "nn = min (plen - length p) (length (data d))"
      define shifted where "shifted = drop nn (data d) @ drop (length (data d) - nn) (data d)"
      from "1.prems" lt True
      have "Read_loop plen (p @ take nn (data d))
              (d\<lparr>data := drop nn shifted, readyOfs := i64 (readyOfs d + int nn)\<rparr>) = ((p', e), d')"
        by (subst (asm) Read_loop.simps) (simp add: Let_def nn_def shifted_def)
      from "1.IH"(1)[OF lt True nn_def shifted_def this] show ?thesis
        by (simp add: unread_def nn_def shifted_def min_def split: if_splits)
    next
      case False
      obtain x d1 where nc: "nextContiguous d = (x, d1)" by (cases "nextContiguous d")
      show ?thesis
      proof (cases x)
        case (Inl er)
        have "length (rd d1) \<le> length (rd d)"
          using nextContiguous_loop_rd[OF nc[unfolded nextContiguous_def]] by simp
        with "1.prems" lt False nc Inl show ?thesis
          by (subst (asm) Read_loop.simps) (auto simp: unread_def)
      next
        case (Inr bs)
        from nextContiguous_loop_unread[OF nc[unfolded nextContiguous_def Inr]] False
        have b: "17 * length (rd d1) + length bs \<le> 17 * length (rd d)" by simp
        show ?thesis
        proof (cases "bs = []")
          case True
          with "1.prems" lt False nc Inr b show ?thesis
            by (subst (asm) Read_loop.simps) (auto simp: unread_def)
        next
          case ne: False
          with "1.prems" lt False nc Inr
          have "Read_loop plen p (d1\<lparr>data := bs\<rparr>) = ((p', e), d')"
            by (subst (asm) Read_loop.simps) simp
          from "1.IH"(2)[OF lt False nc[symmetric] Inr ne this] b False show ?thesis
            by (simp add: unread_def)
        qed
      qed
    qed
  qed
qed

lemma Decoder_Read_progress:
  "Decoder_Read plen d = ((p, None), d') \<Longrightarrow> unread d' < unread d"
  by (cases p) (auto simp: Decoder_Read_def split: if_splits prod.splits option.splits
      dest!: Read_loop_unread)


text \<open>
  \<open>io.Copy(ioutil.Discard, d)\<close> reads into a buffer of 8192 bytes until \<open>Read\<close> fails and
  turns \<open>io.EOF\<close> into success; \<open>ioutil.ReadAll(d)\<close> does the same and keeps the bytes
  (its buffer has at least 512 free bytes).
\<close>

function io_Copy_Discard :: "Decoder \<Rightarrow> error option \<times> Decoder" where
  "io_Copy_Discard d =
     (case Decoder_Read 8192 d of
        ((p, Some e), d') \<Rightarrow> (if e = EOF then None else Some e, d')
      | ((p, None), d') \<Rightarrow> io_Copy_Discard d')"
  by pat_completeness auto
termination
  by (relation "measure unread") (auto dest: Decoder_Read_progress [OF sym])

declare io_Copy_Discard.simps [simp del]

function ReadAll_loop :: "byte list \<Rightarrow> Decoder \<Rightarrow> (byte list \<times> error option) \<times> Decoder" where
  "ReadAll_loop b d =
     (case Decoder_Read 512 d of
        ((p, Some e), d') \<Rightarrow> ((b @ p, if e = EOF then None else Some e), d')
      | ((p, None), d') \<Rightarrow> ReadAll_loop (b @ p) d')"
  by pat_completeness auto
termination
  by (relation "measure (\<lambda>(b, d). unread d)") (auto dest: Decoder_Read_progress [OF sym])

declare ReadAll_loop.simps [simp del]

definition ReadAll :: "Decoder \<Rightarrow> (byte list \<times> error option) \<times> Decoder" where
  "ReadAll d = ReadAll_loop [] d"

text \<open>\<open>Decoder.Next\<close>: the number of bytes skipped, or the error.\<close>

definition Decoder_Next :: "Decoder \<Rightarrow> (error + int) \<times> Decoder" where
  "Decoder_Next d0 =
     (case (if \<not> started d0 then nextContiguous d0 else (Inr [], d0)) of
        (Inl e, d1) \<Rightarrow> (Inl e, d1)
      | (Inr _, d1) \<Rightarrow>
         (case err d1 of
            Some e \<Rightarrow> (Inl e, d1)
          | None \<Rightarrow>
             (case (if nextData d1 = [] \<and> nextOffset d1 = 0 then io_Copy_Discard d1 else (None, d1)) of
                (Some e, d2) \<Rightarrow> (Inl e, d2)
              | (None, d2) \<Rightarrow>
                 (let lastOfs = readyOfs d2;
                      d3 = d2\<lparr>data := nextData d2, readyOfs := nextOffset d2,
                              nextData := [], nextOffset := 0\<rparr>
                  in (Inr (i64 (readyOfs d3 - lastOfs)), d3)))))"


section \<open>The dumper\<close>

text \<open>
  \<open>dataBuf\<close> with its fields \<open>ofs\<close>, \<open>data\<close> (an array of 16 bytes) and \<open>have\<close>.
\<close>

record dataBuf =
  b_ofs :: int
  b_data :: "byte list"
  b_have :: nat

text \<open>
  \<open>fill(p, want)\<close>: the two explicit panics, the slice \<open>b.data[b.have:want]\<close> (out of
  range when \<open>have > want\<close>) and \<open>copy\<close>; the result is the buffer and \<open>n\<close>.
\<close>

definition fill :: "dataBuf \<Rightarrow> byte list \<Rightarrow> int \<Rightarrow> error + (dataBuf \<times> nat)" where
  "fill b p want =
     (if want > int (length (b_data b)) then Inl Panic
      else if want < 0 then Inl Panic
      else if int (b_have b) > want then Inl Panic
      else (let n = min (nat want - b_have b) (length p)
            in Inr (b\<lparr>b_data := take (b_have b) (b_data b) @ take n p @ drop (b_have b + n) (b_data b),
                      b_have := b_have b + n\<rparr>, n)))"

text \<open>\<open>take()\<close>: the offset, the bytes \<open>data[:have]\<close> and the emptied buffer.\<close>

definition take_buf :: "dataBuf \<Rightarrow> int \<times> byte list \<times> dataBuf" where
  "take_buf b = (b_ofs b, take (b_have b) (b_data b),
                 b\<lparr>b_ofs := i64 (b_ofs b + int (b_have b)), b_have := 0\<rparr>)"

definition set_buf :: "dataBuf \<Rightarrow> int \<Rightarrow> error + dataBuf" where
  "set_buf b k = (if b_have b > 0 then Inl Panic else Inr (b\<lparr>b_ofs := k\<rparr>))"

text \<open>
  \<open>Dumper\<close>. The writer \<open>w\<close> is the list of the chunks written to it, one per call of
  its \<open>Write\<close> (each \<open>Fprintf\<close>, \<open>Fprintln\<close> and \<open>d.w.Write\<close> of the code is one call);
  the text it holds is their concatenation. The fields \<open>labels\<close>, \<open>labelIter\<close> and
  \<open>data\<close> are \<open>dlabels\<close>, \<open>labelIt\<close> and \<open>dbuf\<close>.
\<close>

record Dumper =
  closed :: bool
  w :: "string list"
  nextOff :: int
  writePending :: bool
  wroteAnything :: bool
  dlabels :: "Labels option"
  labelIt :: labelIter
  dbuf :: dataBuf

definition NewDumper :: "Labels option \<Rightarrow> Dumper" where
  "NewDumper ls =
     \<lparr>closed = False, w = [], nextOff = 0, writePending = False, wroteAnything = False,
      dlabels = ls, labelIt = Labels_iter ls 0,
      dbuf = \<lparr>b_ofs = 0, b_data = replicate 16 0, b_have = 0\<rparr>\<rparr>"

definition writeLabelsIfNeeded :: "Dumper \<Rightarrow> Dumper" where
  "writeLabelsIfNeeded d =
     (if b_ofs (dbuf d) = Ofs (labelIt d)
      then d\<lparr>w := w d @ map (\<lambda>l. '':'' @ l @ [CHR 0x0A]) (Names (labelIt d)),
              labelIt := snd (labelIter_Next (labelIt d))\<rparr>
      else d)"

subsection \<open>Rendering a line\<close>

definition hexdigit :: "nat \<Rightarrow> char" where
  "hexdigit n = ''0123456789ABCDEF'' ! n"

function to_hex :: "int \<Rightarrow> string" where
  "to_hex n = (if n < 16 then [hexdigit (nat n)] else to_hex (n div 16) @ [hexdigit (nat (n mod 16))])"
  by pat_completeness auto
termination
  by (relation "measure nat") auto

declare to_hex.simps [simp del]

text \<open>\<open>%08X\<close> of an \<open>int64\<close>: zero padded to 8 columns, the sign taking one of them.\<close>

definition fmt_08X :: "int \<Rightarrow> string" where
  "fmt_08X k =
     (if k < 0 then (let h = to_hex (- k) in ''-'' @ replicate (7 - length h) (CHR ''0'') @ h)
      else (let h = to_hex k in replicate (8 - length h) (CHR ''0'') @ h))"

definition fmt_02X :: "byte \<Rightarrow> string" where
  "fmt_02X b = [hexdigit (unat b div 16), hexdigit (unat b mod 16)]"

text \<open>
  \<open>strconv.IsPrint\<close> on the Latin-1 range, and \<open>%c\<close>, which writes the rune in UTF-8.
\<close>

definition IsPrint :: "byte \<Rightarrow> bool" where
  "IsPrint b = (0x20 \<le> unat b \<and> unat b \<le> 0x7E \<or> 0xA1 \<le> unat b \<and> unat b \<noteq> 0xAD)"

definition fmt_c :: "byte \<Rightarrow> string" where
  "fmt_c b = (if unat b < 0x80 then [char_of (unat b)]
              else [char_of (0xC0 + unat b div 64), char_of (0x80 + unat b mod 64)])"

definition ascii_column :: "byte \<Rightarrow> string" where
  "ascii_column b = (if IsPrint b \<and> b \<noteq> of_char (CHR ''|'') then fmt_c b else ''.'')"

definition render_line :: "int \<Rightarrow> byte list \<Rightarrow> bool \<Rightarrow> string" where
  "render_line ofs buf forceOffset =
     (let skipLeft0 = go_rem ofs 0x10;
          skipRight0 = 0x10 - (int (length buf) + skipLeft0);
          skipRight = (if forceOffset \<and> skipLeft0 > 0 then skipRight0 + skipLeft0 else skipRight0);
          skipLeft = (if forceOffset \<and> skipLeft0 > 0 then 0 else skipLeft0)
      in (if skipLeft = 0 \<or> forceOffset then fmt_08X ofs @ ''  '' else replicate 8 (CHR '' '') @ ''  '')
         @ concat (map (\<lambda>i. ''   '' @ (if i = 7 then '' '' else [])) [0..<nat skipLeft])
         @ concat (map (\<lambda>(i, b). fmt_02X b @ '' '' @ (if int i + skipLeft = 7 then '' '' else []))
                       (enumerate 0 buf))
         @ concat (map (\<lambda>i. ''   '' @ (if int i + int (length buf) + skipLeft = 7 then '' '' else []))
                       [0..<nat skipRight])
         @ replicate (nat skipLeft) (CHR '' '')
         @ '' |'' @ concat (map ascii_column buf) @ [CHR ''|'', CHR 0x0A])"

definition writeLine :: "bool \<Rightarrow> Dumper \<Rightarrow> Dumper" where
  "writeLine forceOffset d =
     (case take_buf (dbuf d) of
        (ofs, buf, b) \<Rightarrow> d\<lparr>dbuf := b, w := w d @ [render_line ofs buf forceOffset]\<rparr>)"

subsection \<open>Seek, Write and Close\<close>

definition wrapUp :: "Dumper \<Rightarrow> Dumper" where
  "wrapUp d =
     (if writePending d \<or> b_have (dbuf d) > 0 then writeLine True (writeLabelsIfNeeded d) else d)"

definition honorSeekIfNeeded :: "Dumper \<Rightarrow> error + Dumper" where
  "honorSeekIfNeeded d =
     (if b_ofs (dbuf d) \<noteq> nextOff d then
        (let d1 = wrapUp d;
             d2 = (if wroteAnything d1 then d1\<lparr>w := w d1 @ [[CHR 0x0A]]\<rparr> else d1)
         in case set_buf (dbuf d2) (nextOff d2) of
              Inl e \<Rightarrow> Inl e
            | Inr b \<Rightarrow> Inr (d2\<lparr>dbuf := b, labelIt := Labels_iter (dlabels d2) (nextOff d2)\<rparr>))
      else Inr d)"

text \<open>
  The loop \<open>for n < len(p)\<close> of \<open>Write\<close> on the rest \<open>p[n:]\<close>. The difference
  \<open>d.labelIter.Ofs - d.data.ofs\<close> is taken where \<open>ofs + want\<close> exceeds a positive
  \<open>Ofs\<close> without wrapping, so it does not wrap either.
\<close>

definition want_of :: "Dumper \<Rightarrow> int" where
  "want_of d =
     (let want = 0x10 - go_rem (b_ofs (dbuf d)) 0x10
      in if Ofs (labelIt d) > 0 \<and> i64 (b_ofs (dbuf d) + want) > Ofs (labelIt d)
         then Ofs (labelIt d) - b_ofs (dbuf d) else want)"

definition emit :: "Dumper \<Rightarrow> Dumper" where
  "emit d =
     (let d1 = d\<lparr>writePending := (go_rem (b_ofs (dbuf d)) 0x10 > 0)\<rparr>;
          d2 = writeLabelsIfNeeded d1;
          d3 = (if b_have (dbuf d2) > 0 then writeLine False d2 else d2)
      in d3\<lparr>wroteAnything := True\<rparr>)"

function Write_loop :: "byte list \<Rightarrow> Dumper \<Rightarrow> error + Dumper" where
  "Write_loop p d =
     (if p = [] then Inr d
      else (case fill (dbuf d) p (want_of d) of
              Inl e \<Rightarrow> Inl e
            | Inr (b, n) \<Rightarrow>
                if int (b_have b) = want_of d then Write_loop (drop n p) (emit (d\<lparr>dbuf := b\<rparr>))
                else Write_loop (drop n p) (d\<lparr>dbuf := b\<rparr>)))"
  by pat_completeness auto


text \<open>
  The loop ends: each round takes bytes from \<open>p\<close>, or passes a label offset, or
  writes out a buffer that is full.
\<close>

lemma go_rem_bounds: "- 16 < go_rem a 16 \<and> go_rem a 16 < 16"
proof -
  have "0 \<le> \<bar>a\<bar> mod 16" "\<bar>a\<bar> mod 16 < 16" by simp_all
  then show ?thesis by (cases "a < 0"; cases "a = 0") (auto simp: go_rem_def)
qed

lemma fill_Inr:
  "fill b0 p want = Inr (b, n) \<Longrightarrow>
   n = min (nat want - b_have b0) (length p) \<and> b_have b = b_have b0 + n \<and> b_ofs b = b_ofs b0
   \<and> 0 \<le> want \<and> int (b_have b0) \<le> want \<and> want \<le> int (length (b_data b0))
   \<and> length (b_data b) = length (b_data b0)"
  by (auto simp: fill_def Let_def split: if_splits)

definition wl_measure :: "byte list \<times> Dumper \<Rightarrow> nat \<times> nat \<times> nat \<times> nat" where
  "wl_measure = (\<lambda>(p, d). (length p, length (it_iter (labelIt d)),
                    (if Ofs (labelIt d) > 0 then 1 else 0), b_have (dbuf d)))"

lemma want_of_dbuf: "b_ofs b = b_ofs (dbuf d) \<Longrightarrow> want_of (d\<lparr>dbuf := b\<rparr>) = want_of d"
  by (simp add: want_of_def Let_def)

lemma want_of_zero: "want_of d = 0 \<Longrightarrow> Ofs (labelIt d) > 0 \<and> Ofs (labelIt d) = b_ofs (dbuf d)"
  using go_rem_bounds[of "b_ofs (dbuf d)"]
  by (auto simp: want_of_def Let_def split: if_splits)

lemma emit_measure:
  assumes "int (b_have (dbuf d)) = want_of d"
  shows "((p, emit d), (p, d)) \<in> inv_image (less_than <*lex*> less_than <*lex*> less_than <*lex*> less_than) wl_measure"
proof (cases "b_have (dbuf d) = 0")
  case True
  with assms want_of_zero[of d] show ?thesis
    by (auto simp: wl_measure_def emit_def Let_def writeLabelsIfNeeded_def writeLine_def take_buf_def
        labelIter_Next_def split: list.splits)
next
  case False
  then show ?thesis
    by (auto simp: wl_measure_def emit_def Let_def writeLabelsIfNeeded_def writeLine_def take_buf_def
        labelIter_Next_def split: list.splits)
qed

termination Write_loop
proof (relation "inv_image (less_than <*lex*> less_than <*lex*> less_than <*lex*> less_than) wl_measure", goal_cases)
  case 1
  show ?case by (intro wf_inv_image wf_lex_prod wf_less_than)
next
  case (2 p d x b n)
  then have f: "fill (dbuf d) p (want_of d) = Inr (b, n)" by simp
  note F = fill_Inr[OF f]
  show ?case
  proof (cases "n = 0")
    case True
    have "((p, emit (d\<lparr>dbuf := b\<rparr>)), (p, d\<lparr>dbuf := b\<rparr>)) \<in> inv_image (less_than <*lex*> less_than <*lex*> less_than <*lex*> less_than) wl_measure"
      using 2 F by (intro emit_measure) (simp add: want_of_dbuf)
    moreover have "wl_measure (p, d\<lparr>dbuf := b\<rparr>) = wl_measure (p, d)"
      using F True by (simp add: wl_measure_def)
    ultimately show ?thesis using True by simp
  next
    case False
    with 2 F show ?thesis by (auto simp: wl_measure_def min_def split: if_splits)
  qed
next
  case (3 p d x b n)
  then have f: "fill (dbuf d) p (want_of d) = Inr (b, n)" by simp
  note F = fill_Inr[OF f]
  from 3 F have "n > 0" by (cases p) (auto simp: min_def split: if_splits)
  with 3 show ?case by (auto simp: wl_measure_def)
qed


declare Write_loop.simps [simp del]

text \<open>
  \<open>Dumper.Write(p)\<close>: the result \<open>n\<close> and the dumper; \<open>err\<close> is never assigned, and the
  loop leaves with \<open>n = len(p)\<close>. The writes to \<open>d.w\<close> cannot fail here.
\<close>

definition Dumper_Write :: "byte list \<Rightarrow> Dumper \<Rightarrow> error + (nat \<times> Dumper)" where
  "Dumper_Write p d =
     (case honorSeekIfNeeded d of
        Inl e \<Rightarrow> Inl e
      | Inr d1 \<Rightarrow>
         (case Write_loop p (d1\<lparr>writePending := True\<rparr>) of
            Inl e \<Rightarrow> Inl e
          | Inr d2 \<Rightarrow> Inr (length p, d2)))"

text \<open>\<open>Dumper.Seek\<close>; \<open>io.SeekStart\<close>, \<open>io.SeekCurrent\<close> and \<open>io.SeekEnd\<close> are 0, 1 and 2.\<close>

definition Dumper_Seek :: "int \<Rightarrow> int \<Rightarrow> Dumper \<Rightarrow> (int \<times> error option) \<times> Dumper" where
  "Dumper_Seek ofs whence d =
     (if whence \<noteq> 0 \<and> whence \<noteq> 1 \<and> whence \<noteq> 2 then ((b_ofs (dbuf d), Some InvalidWhence), d)
      else (let ofs' = (if whence = 0 then ofs
                        else i64 (i64 (ofs + b_ofs (dbuf d)) + int (b_have (dbuf d))))
            in if ofs' < 0 then ((b_ofs (dbuf d), Some NegativeSeek), d)
               else ((ofs', None), d\<lparr>nextOff := ofs'\<rparr>)))"

definition Dumper_Close :: "Dumper \<Rightarrow> Dumper" where
  "Dumper_Close d =
     (let d1 = wrapUp d;
          d2 = (if wroteAnything d1 then writeLabelsIfNeeded d1 else d1)
      in d2\<lparr>closed := True\<rparr>)"

text \<open>
  \<open>Dump\<close>. \<open>io.Copy\<close> from a \<open>bytes.Buffer\<close> hands all of \<open>data\<close> to one \<open>Write\<close>, and
  calls no \<open>Write\<close> when \<open>data\<close> is empty; the result of \<open>Seek\<close> is dropped.
\<close>

definition Dump :: "byte list \<Rightarrow> int \<Rightarrow> Labels option \<Rightarrow> error + string" where
  "Dump bs offset ls =
     (let dmp = snd (Dumper_Seek offset 0 (NewDumper ls))
      in case (if bs = [] then Inr (0, dmp) else Dumper_Write bs dmp) of
           Inl e \<Rightarrow> Inl e
         | Inr (n, d) \<Rightarrow> Inr (concat (w (Dumper_Close d))))"


section \<open>Driving a decoder\<close>

text \<open>
  What a caller sees: \<open>Next\<close> reports the bytes skipped or fails; \<open>ioutil.ReadAll\<close>
  returns the bytes of the current segment, which start at the decoder's \<open>readyOfs\<close>.
\<close>

datatype observation = Skipped int | Segment int "byte list" | Failed error

definition observe_Next :: "Decoder \<Rightarrow> observation \<times> Decoder" where
  "observe_Next d =
     (case Decoder_Next d of
        (Inl e, d') \<Rightarrow> (Failed e, d')
      | (Inr k, d') \<Rightarrow> (Skipped k, d'))"

definition observe_ReadAll :: "Decoder \<Rightarrow> observation \<times> Decoder" where
  "observe_ReadAll d =
     (case ReadAll d of
        ((bs, None), d') \<Rightarrow> (Segment (readyOfs d) bs, d')
      | ((bs, Some e), d') \<Rightarrow> (Failed e, d'))"

text \<open>The two lines of the gap scenario, and the calls of \<open>TestSkipping\<close> on them.\<close>

definition gap_input :: string where
  "gap_input =
     ''0010  00 01 02 03 04 05 06 07  08 09 0A 0B 0C 0D 0E 0F\<newline>'' @
     ''0040  20 01 02 03 04 05 06 07  08 09 0A 0B\<newline>''"

definition gap_scenario :: "observation list" where
  "gap_scenario =
     (let (o1, d1) = observe_Next (NewDecoder gap_input);
          (o2, d2) = observe_ReadAll d1;
          (o3, d3) = observe_Next d2;
          (o4, d4) = observe_ReadAll d3;
          (o5, d5) = observe_Next d4
      in [o1, o2, o3, o4, o5])"

text \<open>
  An offsetless data line of two bytes, the label line \<open>:L\<close>, and a data line with
  the explicit offset \<open>0x10\<close>.
\<close>

definition forward_label_input :: string where
  "forward_label_input = ''  00 01\<newline>'' @ '':L\<newline>'' @ ''0010  02\<newline>''"

text \<open>
  An offsetless line of two bytes, a line with the offset \<open>0x10\<close>, and an offsetless
  line at the end of the input.
\<close>

definition run_example :: Decoder where
  "run_example = NewDecoder (''  01 02\<newline>'' @ ''0010  03\<newline>'' @ ''  04\<newline>'')"

section \<open>Driving a dumper\<close>

text \<open>
  A \<open>Write\<close> of \<open>p\<close> to a new dumper without labels, \<open>Close\<close>, then a \<open>Write\<close> of \<open>q\<close>:
  the result \<open>n\<close> of the second \<open>Write\<close> and the chunks it added to the writer.
\<close>

definition write_after_close :: "byte list \<Rightarrow> byte list \<Rightarrow> error + (nat \<times> string list)" where
  "write_after_close p q =
     (case Dumper_Write p (NewDumper None) of
        Inl e \<Rightarrow> Inl e
      | Inr (n, d) \<Rightarrow>
         (case Dumper_Write q (Dumper_Close d) of
            Inl e \<Rightarrow> Inl e
          | Inr (m, d') \<Rightarrow> Inr (m, drop (length (w (Dumper_Close d))) (w d'))))"


text \<open>Sixteen bytes counting up from \<open>k\<close>.\<close>

definition letters :: "nat \<Rightarrow> byte list" where
  "letters k = map of_nat [k..<k + 16]"

text \<open>
  A session: \<open>Write\<close> and \<open>Seek\<close> calls on a new dumper, then \<open>Close\<close>; the results of
  the calls are dropped, a panic ends the session. What it yields is the list of the
  chunks written.
\<close>

datatype dumper_op = Write "byte list" | Seek int int

fun run_ops :: "dumper_op list \<Rightarrow> Dumper \<Rightarrow> error + Dumper" where
  "run_ops [] d = Inr d"
| "run_ops (Write p # ops) d =
     (case Dumper_Write p d of Inl e \<Rightarrow> Inl e | Inr (n, d') \<Rightarrow> run_ops ops d')"
| "run_ops (Seek ofs whence # ops) d = run_ops ops (snd (Dumper_Seek ofs whence d))"

definition dump_session :: "Labels option \<Rightarrow> dumper_op list \<Rightarrow> error + string list" where
  "dump_session ls ops =
     (case run_ops ops (NewDumper ls) of
        Inl e \<Rightarrow> Inl e
      | Inr d \<Rightarrow> Inr (w (Dumper_Close d)))"

definition session_ops :: "dumper_op list" where
  "session_ops = [Seek 8 0, Write (map of_nat [0x41..<0x4B]), Seek 0x100 0, Write [0x61, 0x62, 0x63]]"


definition session_labels :: Labels where
  "session_labels = NewLabels [(''lab'', 0x10), (''end'', 0x103)]"

definition session_out :: "string list" where
  "session_out =
     [''                                   41 42 43 44 45 46 47 48          |ABCDEFGH|\<newline>'',
      '':lab\<newline>'',
      ''00000010  49 4A                                             |IJ|\<newline>'',
      ''\<newline>'',
      ''00000100  61 62 63                                          |abc|\<newline>'',
      '':end\<newline>'']"

section \<open>Using a label table\<close>

text \<open>
  A sequence of \<open>Set\<close> calls; the label sets that the successive calls of \<open>Next\<close>
  yield; and the label sets an iterator presents: its current one (none when it is
  exhausted and \<open>Labels\<close> is \<open>nil\<close>), then those of \<open>Next\<close>.
\<close>

definition Set_all :: "(string \<times> int) list \<Rightarrow> Labels \<Rightarrow> Labels" where
  "Set_all ops l = fold (\<lambda>(name, ofs) t. Labels_Set t name ofs) ops l"

function visit :: "labelIter \<Rightarrow> (int \<times> string list) list" where
  "visit it =
     (case labelIter_Next it of
        (True, it') \<Rightarrow> (Ofs it', Names it') # visit it'
      | (False, it') \<Rightarrow> [])"
  by pat_completeness auto
termination
  by (relation "measure (\<lambda>it. length (it_iter it))")
     (auto simp: labelIter_Next_def split: list.splits)

declare visit.simps [simp del]

definition entries :: "labelIter \<Rightarrow> (int \<times> string list) list" where
  "entries it = (if Names it = [] then [] else [(Ofs it, Names it)]) @ visit it"

text \<open>The \<open>Set\<close> calls of \<open>TestDump\<close>, with \<open>foo\<close> set twice.\<close>

definition test_ops :: "(string \<times> int) list" where
  "test_ops = [(''ignore'', 5), (''foo'', 0x30), (''bar'', 0x35), (''baz'', 0x35), (''foo'', 0x33)]"

section \<open>Reference notions for the claims\<close>

text \<open>The separators that \<open>skipSpacesOrHyphen\<close> passes over.\<close>

definition sep :: "char \<Rightarrow> bool" where
  "sep c = (c = CHR '' '' \<or> c = CHR ''-'')"

text \<open>
  The value of a string of hex digits, most significant digit first, and the bytes its
  pairs of digits denote.
\<close>

definition digit_value :: "char \<Rightarrow> int" where
  "digit_value c = (if c \<le> CHR ''9'' then of_char c - 48 else of_char c - 55)"

definition hexval :: "string \<Rightarrow> int" where
  "hexval ds = foldl (\<lambda>acc c. acc * 16 + digit_value c) 0 ds"

fun hex_bytes :: "string \<Rightarrow> byte list" where
  "hex_bytes (p # q # src) =
     (word_of_int (digit_value p) * 16 + word_of_int (digit_value q)) # hex_bytes src"
| "hex_bytes [p] = []"
| "hex_bytes [] = []"


text \<open>
  The lines of a dump, by what a reader sees of them: a blank line, a label line, a
  data line whose offset field is blank, and a line that shows an offset. Reading the
  chunks in order, \<open>anchor_step\<close> keeps whether no flush or end has come upon an
  unanchored run so far, and whether a run of lines without an offset is waiting for
  one.
\<close>

definition is_blank :: "string \<Rightarrow> bool" where
  "is_blank c \<longleftrightarrow> c = [CHR 0x0A]"

definition is_label :: "string \<Rightarrow> bool" where
  "is_label c \<longleftrightarrow> c \<noteq> [CHR 0x0A] \<and> hd c = CHR '':''"

definition no_offset :: "string \<Rightarrow> bool" where
  "no_offset c \<longleftrightarrow> c \<noteq> [CHR 0x0A] \<and> hd c = CHR '' ''"

definition shows_offset :: "string \<Rightarrow> bool" where
  "shows_offset c \<longleftrightarrow> c \<noteq> [CHR 0x0A] \<and> hd c \<noteq> CHR '':'' \<and> hd c \<noteq> CHR '' ''"

definition anchor_step :: "bool \<times> bool \<Rightarrow> string \<Rightarrow> bool \<times> bool" where
  "anchor_step s c =
     (case s of (ok, owed) \<Rightarrow>
        if c = [CHR 0x0A] then (ok \<and> \<not> owed, False)
        else if hd c = CHR '':'' then (ok, owed)
        else if hd c = CHR '' '' then (ok, True)
        else (ok, False))"

definition anchor_scan :: "string list \<Rightarrow> bool \<times> bool" where
  "anchor_scan cs = foldl anchor_step (True, False) cs"

definition anchored :: "string list \<Rightarrow> bool" where
  "anchored cs = (case anchor_scan cs of (ok, owed) \<Rightarrow> ok \<and> \<not> owed)"

text \<open>
  The first \<open>n\<close> lines that \<open>decodeLine\<close> scans from a text, if it scans them without
  error, and the rest of the text; whether a scanned line bears an offset, and its bytes.
\<close>

primrec read_lines :: "nat \<Rightarrow> string \<Rightarrow> (linerec list \<times> string) option" where
  "read_lines 0 r = Some ([], r)"
| "read_lines (Suc n) r =
     (case decodeLine r of
        (Inl e, r1) \<Rightarrow> None
      | (Inr rec, r1) \<Rightarrow> map_option (\<lambda>(recs, r'). (rec # recs, r')) (read_lines n r1))"

definition bears_offset :: "linerec \<Rightarrow> bool" where
  "bears_offset rec = fst (snd rec)"

definition line_bytes :: "linerec \<Rightarrow> byte list" where
  "line_bytes rec = fst (snd (snd rec))"

text \<open>
  What the loop of \<open>nextContiguous\<close> hands over, from the pending bytes \<open>pending\<close> and
  the lines \<open>recs\<close> scanned before the line at the head of \<open>tail\<close>, which decides.
\<close>

definition handed_over ::
  "byte list \<Rightarrow> Decoder \<Rightarrow> (error + byte list) \<Rightarrow> Decoder \<Rightarrow> linerec list \<Rightarrow> string \<Rightarrow> bool" where
  "handed_over pending d x d' recs tail \<longleftrightarrow>
     (let run = pending @ concat (map line_bytes recs) in
        (\<exists>lineOfs ldata. decodeLine tail = (Inr (lineOfs, True, ldata, []), rd d')
            \<and> (x = Inr (run @ ldata) \<and> run @ ldata \<noteq> []
                  \<and> readyOfs d' = i64 (lineOfs - int (length run))
                  \<and> nextData d' = nextData d \<and> nextOffset d' = nextOffset d
               \<or> x = Inr [] \<and> nextData d' = run @ ldata
                  \<and> nextOffset d' = i64 (lineOfs - int (length run))
               \<or> x = Inl OffsetRewind \<and> nextData d' = nextData d \<and> nextOffset d' = nextOffset d))
        \<or> (\<exists>e. decodeLine tail = (Inl e, rd d')
              \<and> x = (if run = [] then Inl e else Inr run)
              \<and> nextData d' = nextData d \<and> nextOffset d' = nextOffset d))"

text \<open>
  The calls of \<open>nextContiguous\<close> that \<open>Read\<close> makes and that return bytes: the decoder at
  the call, and the bytes. The recursion is that of \<open>Read_loop\<close>.
\<close>

function Read_pulls :: "nat \<Rightarrow> byte list \<Rightarrow> Decoder \<Rightarrow> (Decoder \<times> byte list) list" where
  "Read_pulls plen p d =
     (if length p < plen then
        (if length (data d) > 0 then
           (let nn = min (plen - length p) (length (data d));
                shifted = drop nn (data d) @ drop (length (data d) - nn) (data d)
            in Read_pulls plen (p @ take nn (data d))
                 (d\<lparr>data := drop nn shifted, readyOfs := i64 (readyOfs d + int nn)\<rparr>))
         else (case nextContiguous d of
                 (Inl e, d1) \<Rightarrow> []
               | (Inr bs, d1) \<Rightarrow>
                   if bs = [] then [] else (d, bs) # Read_pulls plen p (d1\<lparr>data := bs\<rparr>)))
      else [])"
  by pat_completeness auto
termination
  by (relation "measures [\<lambda>(plen, p, d). plen - length p, \<lambda>(plen, p, d). if data d = [] then 1 else 0]")
     (auto simp: min_def neq_Nil_conv)

declare Read_pulls.simps [simp del]

section \<open>Scanning a line: lemmas\<close>

text \<open>
  The scanner state at index \<open>i\<close> of the line \<open>l\<close>, and the state after \<open>next\<close> at
  the last index.
\<close>

definition pos :: "string \<Rightarrow> nat \<Rightarrow> scanner" where
  "pos l i = \<lparr>line = l, ch = l ! i, off = int i, eol = (l ! i = CHR 0x0A)\<rparr>"

definition stuck :: "string \<Rightarrow> scanner" where
  "stuck l = \<lparr>line = l, ch = CHR 0x00, off = int (length l) - 1, eol = True\<rparr>"

lemma start_line_pos: "l \<noteq> [] \<Longrightarrow> start_line l = Inr (pos l 0)"
  by (cases l) (simp_all add: start_line_def rewind_def scan_next_def pos_def Let_def)

lemma scan_next_pos:
  "i < length l \<Longrightarrow> scan_next (pos l i) = (if Suc i < length l then pos l (Suc i) else stuck l)"
  by (auto simp: scan_next_def pos_def stuck_def Let_def nat_add_distrib)

lemma pos_simps [simp]: "line (pos l i) = l" "ch (pos l i) = l ! i" "off (pos l i) = int i"
  "eol (pos l i) = (l ! i = CHR 0x0A)"
  by (simp_all add: pos_def)

lemma stuck_simps [simp]: "line (stuck l) = l" "ch (stuck l) = CHR 0x00" "eol (stuck l)"
  "off (stuck l) = int (length l) - 1"
  by (simp_all add: stuck_def)

lemma isHex_0 [simp]: "\<not> isHex (CHR 0x00)"
  by (simp add: isHex_def)

lemma skipSpacesOrHyphen_found:
  "l = pre @ run @ c # rest \<Longrightarrow> length pre = i \<Longrightarrow> \<forall>x\<in>set run. x = CHR '' '' \<or> x = CHR ''-'' \<Longrightarrow>
   c \<noteq> CHR '' '' \<Longrightarrow> c \<noteq> CHR ''-'' \<Longrightarrow>
   skipSpacesOrHyphen (pos l i) = pos l (i + length run)"
proof (induction run arbitrary: pre i)
  case Nil
  then show ?case by (subst skipSpacesOrHyphen.simps) (simp add: nth_append)
next
  case (Cons x run)
  from Cons.prems have x: "l ! i = x" and lt: "Suc i < length l" by (auto simp: nth_append)
  from Cons.prems have "skipSpacesOrHyphen (pos l (Suc i)) = pos l (Suc i + length run)"
    by (intro Cons.IH[of "pre @ [x]"]) auto
  with Cons.prems x lt show ?case
    by (subst skipSpacesOrHyphen.simps) (auto simp: scan_next_pos)
qed

lemma skipSpacesOrHyphen_stuck:
  "l = pre @ run \<Longrightarrow> length pre = i \<Longrightarrow> run \<noteq> [] \<Longrightarrow> \<forall>x\<in>set run. x = CHR '' '' \<or> x = CHR ''-'' \<Longrightarrow>
   skipSpacesOrHyphen (pos l i) = stuck l"
proof (induction run arbitrary: pre i)
  case Nil
  then show ?case by simp
next
  case (Cons x run)
  from Cons.prems have x: "l ! i = x" and lt: "i < length l" by (auto simp: nth_append)
  show ?case
  proof (cases "run = []")
    case True
    with Cons.prems x have "scan_next (pos l i) = stuck l" by (simp add: scan_next_pos)
    moreover have "skipSpacesOrHyphen (stuck l) = stuck l" by (subst skipSpacesOrHyphen.simps) simp
    ultimately show ?thesis using Cons.prems x by (subst skipSpacesOrHyphen.simps) auto
  next
    case False
    with Cons.prems have "skipSpacesOrHyphen (pos l (Suc i)) = stuck l"
      by (intro Cons.IH[of "pre @ [x]"]) auto
    moreover from False Cons.prems have "Suc i < length l" by (cases run) auto
    ultimately show ?thesis using Cons.prems x lt
      by (subst skipSpacesOrHyphen.simps) (auto simp: scan_next_pos)
  qed
qed

lemma skipSpacesOrHyphen_ch:
  assumes "l \<noteq> []"
  shows "ch (skipSpacesOrHyphen (pos l 0)) = (case dropWhile sep l of [] \<Rightarrow> CHR 0x00 | c # _ \<Rightarrow> c)"
proof (cases "dropWhile sep l")
  case Nil
  then have all: "\<forall>x\<in>set l. x = CHR '' '' \<or> x = CHR ''-''"
    by (auto simp: dropWhile_eq_Nil_conv sep_def)
  from skipSpacesOrHyphen_stuck[of l "[]" l 0, OF _ _ assms all]
  have "skipSpacesOrHyphen (pos l 0) = stuck l" by simp
  then show ?thesis by (simp add: Nil del: dropWhile_eq_Nil_conv)
next
  case (Cons c rest)
  have l: "l = [] @ takeWhile sep l @ c # rest" using Cons by (metis append_Nil takeWhile_dropWhile_id)
  have "\<not> sep c" using Cons by (metis hd_dropWhile list.distinct(1) list.sel(1))
  moreover have "\<forall>x\<in>set (takeWhile sep l). x = CHR '' '' \<or> x = CHR ''-''"
    by (auto dest: set_takeWhileD simp: sep_def)
  ultimately have "skipSpacesOrHyphen (pos l 0) = pos l (0 + length (takeWhile sep l))"
    by (intro skipSpacesOrHyphen_found[OF l]) (auto simp: sep_def)
  moreover have "l ! length (takeWhile sep l) = c"
    by (subst l) (simp add: nth_append)
  ultimately show ?thesis using Cons by simp
qed

lemma isHex_cases: "isHex c \<Longrightarrow> c \<in> set ''0123456789ABCDEF''"
proof -
  assume h: "isHex c"
  define n :: nat where "n = of_char c"
  from h have "48 \<le> n \<and> n \<le> 57 \<or> 65 \<le> n \<and> n \<le> 70"
    by (simp add: isHex_def less_eq_char_def n_def)
  then have "n = 48 \<or> n = 49 \<or> n = 50 \<or> n = 51 \<or> n = 52 \<or> n = 53 \<or> n = 54 \<or> n = 55
      \<or> n = 56 \<or> n = 57 \<or> n = 65 \<or> n = 66 \<or> n = 67 \<or> n = 68 \<or> n = 69 \<or> n = 70"
    by arith
  then have "(of_char c :: nat) \<in> of_char ` set ''0123456789ABCDEF''"
    unfolding n_def by auto
  then show ?thesis
    by (simp only: inj_image_mem_iff [OF inj_of_char])
qed

lemma fromHexChar_hex:
  assumes "isHex c"
  shows "fromHexChar c = Some (word_of_int (digit_value c)) \<and> 0 \<le> digit_value c \<and> digit_value c < 16"
proof -
  from isHex_cases[OF assms]
  have "c = CHR ''0'' \<or> c = CHR ''1'' \<or> c = CHR ''2'' \<or> c = CHR ''3'' \<or> c = CHR ''4'' \<or> c = CHR ''5''
      \<or> c = CHR ''6'' \<or> c = CHR ''7'' \<or> c = CHR ''8'' \<or> c = CHR ''9'' \<or> c = CHR ''A'' \<or> c = CHR ''B''
      \<or> c = CHR ''C'' \<or> c = CHR ''D'' \<or> c = CHR ''E'' \<or> c = CHR ''F''"
    by simp
  then show ?thesis
    by (elim disjE) (simp_all add: fromHexChar_def digit_value_def)
qed

lemma uint_pair:
  "0 \<le> x \<Longrightarrow> x < 16 \<Longrightarrow> 0 \<le> y \<Longrightarrow> y < 16 \<Longrightarrow>
   uint (word_of_int x * 16 + word_of_int y :: 8 word) = x * 16 + y"
  by (simp add: uint_word_ariths uint_word_of_int take_bit_eq_mod mod_simps)


lemma foldl_hex_acc:
  "foldl (\<lambda>acc c. acc * 16 + digit_value c) a ds = a * 16 ^ length ds + hexval ds"
proof (induction ds arbitrary: a)
  case Nil
  then show ?case by (simp add: hexval_def)
next
  case (Cons c ds)
  have "hexval (c # ds) = digit_value c * 16 ^ length ds + hexval ds"
    using Cons.IH[of "digit_value c"] by (simp add: hexval_def)
  with Cons.IH[of "a * 16 + digit_value c"] show ?case
    by (simp add: algebra_simps)
qed

lemma hexval_Cons: "hexval (c # ds) = digit_value c * 16 ^ length ds + hexval ds"
  using foldl_hex_acc[of "digit_value c" ds] by (simp add: hexval_def)

lemma hexval_bounds: "\<forall>c\<in>set ds. isHex c \<Longrightarrow> 0 \<le> hexval ds \<and> hexval ds < 16 ^ length ds"
proof (induction ds)
  case Nil
  then show ?case by (simp add: hexval_def)
next
  case (Cons c ds)
  then have d: "0 \<le> digit_value c" "digit_value c \<le> 15" and IH: "0 \<le> hexval ds" "hexval ds < 16 ^ length ds"
    using fromHexChar_hex[of c] by auto
  define X where "X = (16::int) ^ length ds"
  have a: "digit_value c * X \<le> 15 * X" and b: "0 \<le> digit_value c * X"
    using d by (auto simp: X_def intro: mult_right_mono)
  have e: "hexval (c # ds) = digit_value c * X + hexval ds" and f: "(16::int) ^ length (c # ds) = 16 * X"
    by (simp_all add: hexval_Cons X_def)
  from a b IH[folded X_def] show ?case unfolding e f by linarith
qed


lemma length_hex_bytes [simp]: "length (hex_bytes ds) = length ds div 2"
  by (induction ds rule: hex_bytes.induct) simp_all

lemma hex_Decode_digits:
  "\<forall>c\<in>set ds. isHex c \<Longrightarrow> length ds div 2 \<le> n \<Longrightarrow>
   hex_Decode n ds = Inr (hex_bytes ds, if even (length ds) then None else Some ErrLength)"
proof (induction n ds rule: hex_Decode.induct)
  case (1 dstlen p q src)
  from "1.prems" have hp: "isHex p" and hq: "isHex q" and hs: "\<forall>c\<in>set src. isHex c"
    and n: "dstlen \<noteq> 0" "length src div 2 \<le> dstlen - 1"
    by auto
  note P = fromHexChar_hex[OF hp] and Q = fromHexChar_hex[OF hq]
  from "1.IH"[OF P[THEN conjunct1] Q[THEN conjunct1] n(1) hs n(2)] P Q n show ?case
    by simp
next
  case (2 dstlen p)
  then show ?case using fromHexChar_hex[of p] by simp
next
  case (3 dstlen)
  then show ?case by simp
qed

lemma foldl_hex_bytes:
  "\<forall>c\<in>set ds. isHex c \<Longrightarrow> even (length ds) \<Longrightarrow>
   foldl (\<lambda>acc x. acc * 256 + uint x) a (hex_bytes ds) = a * 16 ^ length ds + hexval ds"
proof (induction ds arbitrary: a rule: hex_bytes.induct)
  case (1 p q src)
  from "1.prems" have hp: "isHex p" and hq: "isHex q" and hs: "\<forall>c\<in>set src. isHex c"
    and ev: "even (length src)"
    by auto
  note P = fromHexChar_hex[OF hp] and Q = fromHexChar_hex[OF hq]
  have u: "uint (word_of_int (digit_value p) * 16 + word_of_int (digit_value q) :: 8 word)
       = digit_value p * 16 + digit_value q"
    using P Q by (intro uint_pair) auto
  have "hexval (p # q # src) = (digit_value p * 16 + digit_value q) * 16 ^ length src + hexval src"
    by (simp only: hexval_Cons list.size) (simp add: algebra_simps)
  with "1.IH"[OF hs ev] u show ?case
    by (simp add: algebra_simps)
next
  case (2 p)
  then show ?case by simp
next
  case 3
  then show ?case by (simp add: hexval_def)
qed

lemma length_rightAlign: "length bs \<le> n \<Longrightarrow> length (rightAlign n bs) = n"
  by (simp add: rightAlign_def)

lemma BigEndian_rightAlign:
  "\<forall>c\<in>set ds. isHex c \<Longrightarrow> even (length ds) \<Longrightarrow> length ds \<le> 16 \<Longrightarrow>
   BigEndian_Uint64 (rightAlign 8 (hex_bytes ds)) = Inr (hexval ds)"
proof -
  have z: "\<And>k. foldl (\<lambda>acc x. acc * 256 + uint x) 0 (replicate k (0 :: byte)) = 0"
    by (induct_tac k) simp_all
  assume a: "\<forall>c\<in>set ds. isHex c" "even (length ds)" and "length ds \<le> 16"
  then have "length (hex_bytes ds) \<le> 8" by simp
  then have l: "length (rightAlign 8 (hex_bytes ds)) = 8" by (rule length_rightAlign)
  have "foldl (\<lambda>acc x. acc * 256 + uint x) 0 (rightAlign 8 (hex_bytes ds)) = hexval ds"
    using a by (simp add: rightAlign_def z foldl_hex_bytes)
  with l show ?thesis by (simp add: BigEndian_Uint64_def)
qed

lemma skipHex_found:
  "l = pre @ run @ c # rest \<Longrightarrow> length pre = i \<Longrightarrow> \<forall>x\<in>set run. isHex x \<Longrightarrow> \<not> isHex c \<Longrightarrow>
   skipHex (pos l i) = pos l (i + length run)"
proof (induction run arbitrary: pre i)
  case Nil
  then show ?case by (subst skipHex.simps) (simp add: nth_append)
next
  case (Cons x run)
  from Cons.prems have x: "l ! i = x" and lt: "Suc i < length l" by (auto simp: nth_append)
  from Cons.prems have "skipHex (pos l (Suc i)) = pos l (Suc i + length run)"
    by (intro Cons.IH[of "pre @ [x]"]) auto
  with Cons.prems x lt show ?case
    by (subst skipHex.simps) (auto simp: scan_next_pos)
qed

lemma scan_next_off:
  "m < length l \<Longrightarrow> line d = l \<Longrightarrow> scan_next (d\<lparr>off := int m - 1, eol := e\<rparr>) = pos l m"
  by (auto simp: scan_next_def pos_def Let_def)

lemma slice_mid: "length pre = i \<Longrightarrow> slice (pre @ ds @ rest) (int i) (int (i + length ds)) = ds"
  by (simp add: slice_def)

lemma decodeHexBytes_run:
  assumes l: "l = pre @ ds @ c # rest" and i: "length pre = i" and ne: "ds \<noteq> []"
    and hex: "\<forall>x\<in>set ds. isHex x" and c: "\<not> isHex c" and n: "length ds div 2 \<le> n"
  shows "decodeHexBytes n (pos l i) =
           (if even (length ds)
            then Inr (pos l (i + length ds), hex_bytes ds,
                      if c = CHR 0x0A \<or> c = CHR '' '' \<or> c = CHR ''-'' then None else Some IllegalCharacter)
            else Inr (pos l (i + length ds - 1), hex_bytes ds, Some TooManyCharacters))"
proof -
  have sk: "skipHex (pos l i) = pos l (i + length ds)"
    using skipHex_found[OF l i hex c] .
  have sl: "slice l (int i) (int (i + length ds)) = ds"
    unfolding l using slice_mid[OF i, of ds "c # rest"] by simp
  have dec: "hex_Decode n ds = Inr (hex_bytes ds, if even (length ds) then None else Some ErrLength)"
    using hex_Decode_digits[OF hex n] .
  have lc: "l ! (i + length ds) = c" using l i by (simp add: nth_append)
  show ?thesis
  proof (cases "even (length ds)")
    case True
    then have two: "length ds div 2 * 2 = length ds" by auto
    from ne have pos: "0 < i + length ds" by simp
    have eq: "int i + int (length ds div 2) * 2 = int (i + length ds)"
      using two by arith
    have rw: "rewind (int i + int (length ds div 2) * 2) (pos l (i + length ds)) = Inr (pos l (i + length ds))"
      unfolding eq using ne by (cases ds) (auto simp: rewind_def)
    show ?thesis
      by (simp only: decodeHexBytes_def Let_def sk pos_simps sl dec sum.case prod.case
            length_hex_bytes rw lc True if_True)
         (use c in auto)
  next
    case False
    then have two: "length ds div 2 * 2 = length ds - 1" and ge: "1 \<le> length ds"
      by (auto elim!: oddE)
    have m: "i + length ds - 1 < length l" using l i ne by simp
    have eq: "int i + int (length ds div 2) * 2 = int (i + length ds - 1)"
      using two ge by arith
    have rw: "rewind (int i + int (length ds div 2) * 2) (pos l (i + length ds)) = Inr (pos l (i + length ds - 1))"
      unfolding eq using ge scan_next_off[OF m, of "pos l (i + length ds)"]
      by (simp add: rewind_def)
    have "i + length ds - 1 = length pre + (length ds - 1)" using i ge by simp
    then have "l ! (i + length ds - 1) = (ds @ c # rest) ! (length ds - 1)"
      unfolding l by (simp only: nth_append_length_plus)
    also have "\<dots> = ds ! (length ds - 1)" using ne by (simp add: nth_append)
    also have "\<dots> = last ds" using ne by (simp add: last_conv_nth)
    finally have "l ! (i + length ds - 1) = last ds" .
    with hex ne have h: "isHex (l ! (i + length ds - 1))" by simp
    show ?thesis
      by (simp only: decodeHexBytes_def Let_def sk pos_simps sl dec sum.case prod.case
            length_hex_bytes rw h False if_True if_False)
  qed
qed

lemma i64_id: "- (2 ^ 63) \<le> v \<Longrightarrow> v < 2 ^ 63 \<Longrightarrow> i64 v = v"
  unfolding i64_def by (rule signed_take_bit_int_eq_self)

lemma i64_neg: "2 ^ 63 \<le> v \<Longrightarrow> v < 2 ^ 64 \<Longrightarrow> i64 v < 0"
proof -
  assume a: "2 ^ 63 \<le> v" and b: "v < 2 ^ 64"
  have "signed_take_bit 63 v \<le> v - 2 ^ Suc 63" using a by (rule signed_take_bit_int_less_eq)
  moreover have "(2::int) ^ Suc 63 = 2 ^ 64" by simp
  ultimately have "i64 v \<le> v - 2 ^ 64" unfolding i64_def by (simp only:)
  with b show ?thesis by linarith
qed


lemma decodeLine_suffix: "decodeLine r = (x, rest) \<Longrightarrow> \<exists>l. r = l @ rest"
proof -
  assume a: "decodeLine r = (x, rest)"
  show ?thesis
  proof (cases "dropWhile (\<lambda>c. c \<noteq> CHR 0x0A) r")
    case Nil
    with a have "rest = []" by (auto simp: decodeLine_def ReadBytes_def split: if_splits)
    then show ?thesis by simp
  next
    case (Cons c cs)
    with a have "rest = cs" by (auto simp: decodeLine_def ReadBytes_def split: if_splits)
    with Cons have "r = (takeWhile (\<lambda>c. c \<noteq> CHR 0x0A) r @ [c]) @ rest"
      by (metis append.assoc append_Cons append_Nil takeWhile_dropWhile_id)
    then show ?thesis ..
  qed
qed

section \<open>The label table: lemmas\<close>

text \<open>What \<open>Set\<close> and \<open>Reset\<close> keep true of the three fields.\<close>

definition wf_labels :: "Labels \<Rightarrow> bool" where
  "wf_labels l \<longleftrightarrow>
     distinct (map fst (lmap l)) \<and> sorted (offsets l) \<and> distinct (offsets l)
     \<and> set (offsets l) = snd ` set (lmap l) \<and> dom (offLabels l) = set (offsets l)
     \<and> (\<forall>k ns. offLabels l k = Some ns \<longrightarrow>
            sorted ns \<and> distinct ns \<and> set ns = {n. (n, k) \<in> set (lmap l)})"

lemma wf_zero: "wf_labels Labels_zero"
  by (simp add: wf_labels_def Labels_zero_def)

lemma collected_fold:
  "fold (\<lambda>(name, off) m. m(off \<mapsto> names_at m off @ [name])) xs m0 k =
     (if filter (\<lambda>p. snd p = k) xs = [] then m0 k
      else Some (names_at m0 k @ map fst (filter (\<lambda>p. snd p = k) xs)))"
proof (induction xs arbitrary: m0)
  case Nil
  then show ?case by simp
next
  case (Cons x xs)
  obtain n j where x: "x = (n, j)" by (cases x)
  define m1 where "m1 = m0(j \<mapsto> names_at m0 j @ [n])"
  have m1: "m1 k = (if k = j then Some (names_at m0 j @ [n]) else m0 k)"
    "names_at m1 k = (if k = j then names_at m0 j @ [n] else names_at m0 k)"
    by (simp_all add: m1_def names_at_def)
  have "fold (\<lambda>(name, off) m. m(off \<mapsto> names_at m off @ [name])) (x # xs) m0 k
      = fold (\<lambda>(name, off) m. m(off \<mapsto> names_at m off @ [name])) xs m1 k"
    by (simp add: x m1_def)
  also have "\<dots> = (if filter (\<lambda>p. snd p = k) xs = [] then m1 k
      else Some (names_at m1 k @ map fst (filter (\<lambda>p. snd p = k) xs)))"
    by (rule Cons.IH)
  also have "\<dots> = (if filter (\<lambda>p. snd p = k) (x # xs) = [] then m0 k
      else Some (names_at m0 k @ map fst (filter (\<lambda>p. snd p = k) (x # xs))))"
    by (simp add: m1 x)
  finally show ?case .
qed

lemma wf_Reset:
  assumes "distinct (map fst m)"
  shows "wf_labels (Labels_Reset l m)"
proof -
  let ?c = "fold (\<lambda>(name, off) m. m(off \<mapsto> names_at m off @ [name])) m Map.empty"
  have c: "\<And>k. ?c k = (if filter (\<lambda>p. snd p = k) m = [] then None
                         else Some (map fst (filter (\<lambda>p. snd p = k) m)))"
    by (simp only: collected_fold) (simp add: names_at_def)
  have d: "\<And>k. distinct (map fst (filter (\<lambda>p. snd p = k) m))"
    using assms by (simp add: distinct_map_filter)
  have dom: "dom (\<lambda>off. map_option sort (?c off)) = snd ` set m"
    by (auto simp: c dom_def filter_empty_conv split: if_splits)
  show ?thesis
    unfolding wf_labels_def Labels_Reset_def Let_def sortOffsets_def
    using assms d dom
    by (auto simp: c split: if_splits) force
qed


lemma wf_init: "wf_labels l \<Longrightarrow> Labels_init l = l"
proof -
  assume w: "wf_labels l"
  show ?thesis
  proof (cases "lmap l = []")
    case True
    with w have "dom (offLabels l) = {}" by (simp add: wf_labels_def)
    then have "offLabels l = Map.empty" by simp
    with True show ?thesis by (simp add: Labels_init_def)
  next
    case False
    then show ?thesis by (simp add: Labels_init_def)
  qed
qed

lemma map_of_None_keys: "map_of al n = None \<Longrightarrow> n \<notin> fst ` set al"
  by (simp add: map_of_eq_None_iff)

lemma update_new: "map_of al n = None \<Longrightarrow> AList.update n k al = al @ [(n, k)]"
  by (induction al) (auto split: if_splits)

lemma wf_Set: "wf_labels l \<Longrightarrow> wf_labels (Labels_Set l name ofs)"
proof -
  assume w: "wf_labels l"
  note i = wf_init[OF w]
  show ?thesis
  proof (cases "map_of (lmap l) name")
    case (Some k)
    show ?thesis
    proof (cases "k = ofs")
      case True
      with Some w show ?thesis by (simp add: Labels_Set_def i)
    next
      case False
      have "distinct (map fst (AList.update name ofs (lmap l)))"
        using w by (simp add: wf_labels_def distinct_update)
      from wf_Reset[OF this] Some False show ?thesis by (simp add: Labels_Set_def i)
    qed
  next
    case None
    note fresh = map_of_None_keys[OF None]
    note upd = update_new[OF None, of ofs]
    from w have W: "distinct (map fst (lmap l))" "sorted (offsets l)" "distinct (offsets l)"
      "set (offsets l) = snd ` set (lmap l)" "dom (offLabels l) = set (offsets l)"
      "\<And>k ns. offLabels l k = Some ns \<Longrightarrow> sorted ns \<and> distinct ns \<and> set ns = {n. (n, k) \<in> set (lmap l)}"
      by (auto simp: wf_labels_def)
    have names: "set (names_at (offLabels l) ofs) = {n. (n, ofs) \<in> set (lmap l)}"
      "distinct (names_at (offLabels l) ofs)"
    proof -
      show "set (names_at (offLabels l) ofs) = {n. (n, ofs) \<in> set (lmap l)}"
      proof (cases "offLabels l ofs")
        case None
        then have "ofs \<notin> dom (offLabels l)" by (simp add: domIff)
        then have "ofs \<notin> snd ` set (lmap l)" using W(4,5) by simp
        with None show ?thesis by (force simp: names_at_def)
      next
        case (Some ns)
        with W(6)[OF Some] show ?thesis by (simp add: names_at_def)
      qed
      show "distinct (names_at (offLabels l) ofs)"
        using W(6) by (cases "offLabels l ofs") (auto simp: names_at_def)
    qed
    have nm: "name \<notin> set (names_at (offLabels l) ofs)"
      using names(1) fresh by force
    show ?thesis
    proof (cases "offLabels l ofs")
      case n: None
      then have "ofs \<notin> dom (offLabels l)" by (simp add: domIff)
      then have "ofs \<notin> set (offsets l)" using W(5) by simp
      moreover from this have "\<And>x. (x, ofs) \<notin> set (lmap l)" using W(4) by force
      ultimately show ?thesis using None n W fresh
        unfolding wf_labels_def Labels_Set_def i Let_def sortOffsets_def upd
        by (auto simp: names_at_def image_Un)
    next
      case s: (Some ns)
      then have "ofs \<in> dom (offLabels l)" by (simp add: domIff)
      then have "ofs \<in> set (offsets l)" using W(5) by simp
      with None s W fresh names nm show ?thesis
        unfolding wf_labels_def Labels_Set_def i Let_def sortOffsets_def upd
        by (auto simp: names_at_def image_Un insert_absorb)
    qed
  qed
qed

lemma wf_Set_all: "wf_labels l \<Longrightarrow> wf_labels (Set_all ops l)"
  by (induction ops arbitrary: l) (auto simp: Set_all_def wf_Set)

lemma Get_Set:
  "Labels_Get (Labels_Set l name ofs) n = (if n = name then Some ofs else Labels_Get l n)"
  by (auto simp: Labels_Get_def Labels_Set_def Labels_init_def Labels_Reset_def sortOffsets_def
      Let_def update_conv' split: option.splits)

lemma Get_Set_all:
  "Labels_Get (Set_all ops l) n = (case map_of (rev ops) n of None \<Rightarrow> Labels_Get l n | Some k \<Rightarrow> Some k)"
proof (induction ops arbitrary: l)
  case Nil
  then show ?case by (simp add: Set_all_def)
next
  case (Cons x ops)
  obtain name ofs where x: "x = (name, ofs)" by (cases x)
  have "Set_all (x # ops) l = Set_all ops (Labels_Set l name ofs)"
    by (simp add: Set_all_def x)
  then show ?case
    by (simp add: Cons.IH Get_Set x map_add_def split: option.splits)
qed


text \<open>Visiting from an iterator whose remaining offsets are \<open>ks\<close>.\<close>

lemma visit_iter:
  "visit it = map (\<lambda>k. (k, names_at (it_offLabels it) k)) (it_iter it)"
proof (induction "it_iter it" arbitrary: it)
  case Nil
  then show ?case by (subst visit.simps) (simp add: labelIter_Next_def)
next
  case (Cons k ks)
  let ?it' = "it\<lparr>Ofs := k, Names := names_at (it_offLabels it) k, it_iter := ks\<rparr>"
  have "visit ?it' = map (\<lambda>k. (k, names_at (it_offLabels ?it') k)) (it_iter ?it')"
    by (rule Cons.hyps(1)) simp
  with Cons.hyps(2)[symmetric] show ?case
    by (subst visit.simps) (simp add: labelIter_Next_def)
qed

text \<open>
  The iterator that \<open>iter(ofs)\<close> returns: exhausted, or at the first offset from \<open>ofs\<close>
  on, with the later offsets still to come.
\<close>

lemma iter_loop_result:
  "iter_loop ofs it =
     (case dropWhile (\<lambda>k. k < ofs) (it_iter it) of
        [] \<Rightarrow> it\<lparr>Ofs := - 1, Names := [], it_iter := []\<rparr>
      | k # ks \<Rightarrow> it\<lparr>Ofs := k, Names := names_at (it_offLabels it) k, it_iter := ks\<rparr>)"
proof (induction "it_iter it" arbitrary: it)
  case Nil
  then show ?case
    by (subst iter_loop.simps) (simp add: labelIter_Next_def Nil[symmetric])
next
  case (Cons k ks)
  let ?it' = "it\<lparr>Ofs := k, Names := names_at (it_offLabels it) k, it_iter := ks\<rparr>"
  have IH: "iter_loop ofs ?it' =
     (case dropWhile (\<lambda>k. k < ofs) (it_iter ?it') of
        [] \<Rightarrow> ?it'\<lparr>Ofs := - 1, Names := [], it_iter := []\<rparr>
      | k # ks \<Rightarrow> ?it'\<lparr>Ofs := k, Names := names_at (it_offLabels ?it') k, it_iter := ks\<rparr>)"
    by (rule Cons.hyps(1)) simp
  show ?case
  proof (cases "k < ofs")
    case True
    then have "iter_loop ofs it = iter_loop ofs ?it'"
      by (subst iter_loop.simps) (simp add: labelIter_Next_def Cons.hyps(2)[symmetric])
    moreover from True have "dropWhile (\<lambda>k. k < ofs) (k # ks) = dropWhile (\<lambda>k. k < ofs) ks"
      by simp
    ultimately show ?thesis
      unfolding IH Cons.hyps(2)[symmetric]
      by (cases "dropWhile (\<lambda>k. k < ofs) ks") (simp_all del: dropWhile_eq_Nil_conv)
  next
    case False
    then show ?thesis
      by (subst iter_loop.simps) (simp add: labelIter_Next_def Cons.hyps(2)[symmetric])
  qed
qed


lemma dropWhile_sorted:
  "sorted xs \<Longrightarrow> dropWhile (\<lambda>k. k < ofs) xs = filter (\<lambda>k. ofs \<le> k) (xs :: int list)"
proof (induction xs)
  case Nil
  then show ?case by simp
next
  case (Cons x xs)
  show ?case
  proof (cases "x < ofs")
    case True
    with Cons show ?thesis by simp
  next
    case False
    with Cons.prems have "\<forall>k\<in>set xs. ofs \<le> k" by auto
    then have "filter (\<lambda>k. ofs \<le> k) xs = xs" by (simp add: filter_id_conv)
    with False show ?thesis by simp
  qed
qed

lemma entries_iter:
  assumes w: "wf_labels l"
  shows "entries (Labels_iter (Some l) ofs)
           = map (\<lambda>k. (k, names_at (offLabels l) k)) (filter (\<lambda>k. ofs \<le> k) (offsets l))"
proof -
  from w have so: "sorted (offsets l)" and dom: "dom (offLabels l) = set (offsets l)"
    and nm: "\<And>k ns. offLabels l k = Some ns \<Longrightarrow> set ns = {n. (n, k) \<in> set (lmap l)}"
    and offs: "set (offsets l) = snd ` set (lmap l)"
    by (auto simp: wf_labels_def)
  have ne: "names_at (offLabels l) k \<noteq> []" if "k \<in> set (offsets l)" for k
  proof -
    from that dom obtain ns where ns: "offLabels l k = Some ns" by auto
    from that offs obtain n where "(n, k) \<in> set (lmap l)" by auto
    with nm[OF ns] have "n \<in> set ns" by simp
    with ns show ?thesis by (auto simp: names_at_def)
  qed
  let ?it0 = "labelIter_zero\<lparr>it_offLabels := offLabels l, it_iter := offsets l\<rparr>"
  note dw = dropWhile_sorted[OF so, of ofs]
  show ?thesis
  proof (cases "filter (\<lambda>k. ofs \<le> k) (offsets l)")
    case Nil
    then show ?thesis
      by (simp add: Labels_iter_def iter_loop_result dw entries_def visit_iter)
  next
    case (Cons k ks)
    then have "k \<in> set (filter (\<lambda>k. ofs \<le> k) (offsets l))" by simp
    then have "k \<in> set (offsets l)" by simp
    from ne[OF this] Cons show ?thesis
      by (simp add: Labels_iter_def iter_loop_result dw entries_def visit_iter)
  qed
qed


section \<open>The dumper: lemmas\<close>

text \<open>
  The field \<open>closed\<close> is written by \<open>Close\<close> and read nowhere: every operation of
  \<open>Write\<close> commutes with setting it.
\<close>

lemma closed_swap:
  "d\<lparr>closed := c, dbuf := b\<rparr> = d\<lparr>dbuf := b, closed := c\<rparr>"
  "d\<lparr>closed := c, writePending := t\<rparr> = d\<lparr>writePending := t, closed := c\<rparr>"
  by (cases d; simp)+

lemma writeLabelsIfNeeded_closed:
  "writeLabelsIfNeeded (d\<lparr>closed := c\<rparr>) = (writeLabelsIfNeeded d)\<lparr>closed := c\<rparr>"
  by (simp add: writeLabelsIfNeeded_def)

lemma writeLine_closed: "writeLine f (d\<lparr>closed := c\<rparr>) = (writeLine f d)\<lparr>closed := c\<rparr>"
  by (simp add: writeLine_def split: prod.splits)

lemma wrapUp_closed: "wrapUp (d\<lparr>closed := c\<rparr>) = (wrapUp d)\<lparr>closed := c\<rparr>"
  by (simp add: wrapUp_def writeLabelsIfNeeded_closed writeLine_closed)

lemma emit_closed: "emit (d\<lparr>closed := c\<rparr>) = (emit d)\<lparr>closed := c\<rparr>"
  by (simp add: emit_def Let_def writeLabelsIfNeeded_def writeLine_def split: prod.splits)

lemma want_of_closed: "want_of (d\<lparr>closed := c\<rparr>) = want_of d"
  by (simp add: want_of_def Let_def)

lemma honorSeekIfNeeded_closed:
  "honorSeekIfNeeded (d\<lparr>closed := c\<rparr>)
     = (case honorSeekIfNeeded d of Inl e \<Rightarrow> Inl e | Inr d' \<Rightarrow> Inr (d'\<lparr>closed := c\<rparr>))"
  by (simp add: honorSeekIfNeeded_def Let_def wrapUp_closed split: sum.splits)

lemma Write_loop_closed:
  "Write_loop p (d\<lparr>closed := c\<rparr>)
     = (case Write_loop p d of Inl e \<Rightarrow> Inl e | Inr d' \<Rightarrow> Inr (d'\<lparr>closed := c\<rparr>))"
proof (induction p d rule: Write_loop.induct)
  case (1 p d)
  show ?case
  proof (cases "p = []")
    case True
    then show ?thesis by (simp add: Write_loop.simps)
  next
    case False
    show ?thesis
    proof (cases "fill (dbuf d) p (want_of d)")
      case (Inl e)
      with False show ?thesis
        by (simp add: Write_loop.simps[of p] want_of_closed closed_swap)
    next
      case (Inr bn)
      obtain b n where bn: "bn = (b, n)" by (cases bn)
      show ?thesis
      proof (cases "int (b_have b) = want_of d")
        case True
        have "Write_loop (drop n p) ((emit (d\<lparr>dbuf := b\<rparr>))\<lparr>closed := c\<rparr>)
              = (case Write_loop (drop n p) (emit (d\<lparr>dbuf := b\<rparr>)) of Inl e \<Rightarrow> Inl e | Inr d' \<Rightarrow> Inr (d'\<lparr>closed := c\<rparr>))"
          using 1(1)[OF False Inr[unfolded bn] refl True] .
        moreover have "emit (d\<lparr>closed := c, dbuf := b\<rparr>) = (emit (d\<lparr>dbuf := b\<rparr>))\<lparr>closed := c\<rparr>"
          using emit_closed[where d = "d\<lparr>dbuf := b\<rparr>" and c = c] by (simp only: closed_swap)
        ultimately show ?thesis using False Inr bn True
          by (simp add: Write_loop.simps[of p] want_of_closed closed_swap)
      next
        case F2: False
        have "Write_loop (drop n p) (d\<lparr>dbuf := b\<rparr>\<lparr>closed := c\<rparr>)
              = (case Write_loop (drop n p) (d\<lparr>dbuf := b\<rparr>) of Inl e \<Rightarrow> Inl e | Inr d' \<Rightarrow> Inr (d'\<lparr>closed := c\<rparr>))"
          using 1(2)[OF False Inr[unfolded bn] refl F2] .
        then show ?thesis using False Inr bn F2
          by (simp add: Write_loop.simps[of p] want_of_closed closed_swap)
      qed
    qed
  qed
qed

lemma Dumper_Write_closed:
  "Dumper_Write p (d\<lparr>closed := c\<rparr>)
     = (case Dumper_Write p d of Inl e \<Rightarrow> Inl e | Inr (n, d') \<Rightarrow> Inr (n, d'\<lparr>closed := c\<rparr>))"
proof (cases "honorSeekIfNeeded d")
  case (Inl e)
  then show ?thesis by (simp add: Dumper_Write_def honorSeekIfNeeded_closed)
next
  case (Inr d1)
  have "Write_loop p (d1\<lparr>closed := c, writePending := True\<rparr>)
        = (case Write_loop p (d1\<lparr>writePending := True\<rparr>) of Inl e \<Rightarrow> Inl e | Inr d' \<Rightarrow> Inr (d'\<lparr>closed := c\<rparr>))"
    using Write_loop_closed[where p = p and d = "d1\<lparr>writePending := True\<rparr>" and c = c] by (simp only: closed_swap)
  with Inr show ?thesis
    by (simp add: Dumper_Write_def honorSeekIfNeeded_closed split: sum.splits)
qed


lemma writeLabelsIfNeeded_w: "\<exists>out. w (writeLabelsIfNeeded d) = w d @ out"
  by (simp add: writeLabelsIfNeeded_def)

lemma writeLine_w: "\<exists>out. w (writeLine f d) = w d @ out"
  by (simp add: writeLine_def split: prod.splits)

lemma wrapUp_w: "\<exists>out. w (wrapUp d) = w d @ out"
  using writeLabelsIfNeeded_w[of d] writeLine_w[of True "writeLabelsIfNeeded d"]
  by (auto simp: wrapUp_def)

lemma emit_w: "\<exists>out. w (emit d) = w d @ out"
proof -
  let ?d1 = "d\<lparr>writePending := (go_rem (b_ofs (dbuf d)) 0x10 > 0)\<rparr>"
  obtain o1 where 1: "w (writeLabelsIfNeeded ?d1) = w d @ o1"
    using writeLabelsIfNeeded_w[of ?d1] by auto
  obtain o2 where 2: "w (writeLine False (writeLabelsIfNeeded ?d1)) = w (writeLabelsIfNeeded ?d1) @ o2"
    using writeLine_w by blast
  show ?thesis using 1 2 by (simp add: emit_def Let_def)
qed

lemma honorSeekIfNeeded_w: "honorSeekIfNeeded d = Inr d' \<Longrightarrow> \<exists>out. w d' = w d @ out"
  using wrapUp_w[of d]
  by (auto simp: honorSeekIfNeeded_def Let_def split: if_splits sum.splits)

lemma honorSeekIfNeeded_Inl: "honorSeekIfNeeded d = Inl e \<Longrightarrow> e = Panic"
  by (auto simp: honorSeekIfNeeded_def Let_def set_buf_def split: if_splits sum.splits)

lemma Write_loop_w:
  "(case Write_loop p d of Inl e \<Rightarrow> e = Panic | Inr d' \<Rightarrow> \<exists>out. w d' = w d @ out)"
proof (induction p d rule: Write_loop.induct)
  case (1 p d)
  show ?case
  proof (cases "p = []")
    case True
    then show ?thesis by (simp add: Write_loop.simps)
  next
    case False
    show ?thesis
    proof (cases "fill (dbuf d) p (want_of d)")
      case (Inl e)
      then have "e = Panic" by (auto simp: fill_def Let_def split: if_splits)
      with False Inl show ?thesis by (simp add: Write_loop.simps[of p])
    next
      case (Inr bn)
      obtain b n where bn: "bn = (b, n)" by (cases bn)
      show ?thesis
      proof (cases "int (b_have b) = want_of d")
        case True
        note IH = 1(1)[OF False Inr[unfolded bn] refl True]
        obtain o1 where "w (emit (d\<lparr>dbuf := b\<rparr>)) = w d @ o1"
          using emit_w[of "d\<lparr>dbuf := b\<rparr>"] by auto
        with IH False Inr bn True show ?thesis
          by (auto simp: Write_loop.simps[of p] split: sum.splits)
      next
        case F2: False
        note IH = 1(2)[OF False Inr[unfolded bn] refl F2]
        with False Inr bn F2 show ?thesis
          by (auto simp: Write_loop.simps[of p] split: sum.splits)
      qed
    qed
  qed
qed

lemma Dumper_Write_result:
  "(case Dumper_Write p d of
      Inl e \<Rightarrow> e = Panic
    | Inr (n, d') \<Rightarrow> n = length p \<and> (\<exists>out. w d' = w d @ out))"
proof (cases "honorSeekIfNeeded d")
  case (Inl e)
  then show ?thesis using honorSeekIfNeeded_Inl by (simp add: Dumper_Write_def)
next
  case (Inr d1)
  obtain o1 where 1: "w d1 = w d @ o1" using honorSeekIfNeeded_w[OF Inr] by auto
  show ?thesis
    using Write_loop_w[where p = p and d = "d1\<lparr>writePending := True\<rparr>"] Inr 1
    by (auto simp: Dumper_Write_def split: sum.splits)
qed

lemma Dumper_Close_closed: "closed (Dumper_Close d)"
  by (simp add: Dumper_Close_def Let_def)


text \<open>
  What the dumper's writes add to the reading of its output, and the invariant: a run
  that waits for an offset is one for which \<open>writePending\<close> is set or bytes are
  buffered, so that \<open>wrapUp\<close> writes a line with a forced offset.
\<close>

lemma to_hex_hd: "to_hex n \<noteq> [] \<and> hd (to_hex n) \<in> set ''0123456789ABCDEF''"
proof (induction n rule: to_hex.induct)
  case (1 n)
  show ?case
  proof (cases "n < 16")
    case True
    then have "nat n < 16" by simp
    then have "hexdigit (nat n) \<in> set ''0123456789ABCDEF''"
      unfolding hexdigit_def by (intro nth_mem) simp
    with True show ?thesis by (simp add: to_hex.simps[of n])
  next
    case False
    with 1 show ?thesis by (simp add: to_hex.simps[of n])
  qed
qed

lemma fmt_08X_hd:
  "fmt_08X k \<noteq> [] \<and> hd (fmt_08X k) \<noteq> CHR '' '' \<and> hd (fmt_08X k) \<noteq> CHR '':'' \<and> hd (fmt_08X k) \<noteq> CHR 0x0A"
proof (cases "k < 0")
  case True
  then show ?thesis by (simp add: fmt_08X_def Let_def)
next
  case False
  have h: "to_hex k \<noteq> []" "hd (to_hex k) \<in> set ''0123456789ABCDEF''"
    using to_hex_hd[of k] by auto
  show ?thesis
  proof (cases "8 - length (to_hex k)")
    case 0
    with False h show ?thesis by (auto simp: fmt_08X_def Let_def)
  next
    case (Suc m)
    with False show ?thesis by (simp add: fmt_08X_def Let_def)
  qed
qed

lemma anchor_step_label [simp]: "anchor_step s (CHR '':'' # l) = s"
  by (cases s) (simp add: anchor_step_def)

lemma anchor_step_blank [simp]: "anchor_step (ok, owed) [CHR 0x0A] = (ok \<and> \<not> owed, False)"
  by (simp add: anchor_step_def)

lemma anchor_step_line:
  "anchor_step s (render_line ofs buf f) = (fst s, \<not> (f \<or> go_rem ofs 0x10 = 0))"
proof (cases "f \<or> go_rem ofs 0x10 = 0")
  case True
  then obtain rest where r: "render_line ofs buf f = fmt_08X ofs @ ''  '' @ rest"
    by (auto simp: render_line_def Let_def)
  obtain c cs where c: "fmt_08X ofs = c # cs" "c \<noteq> CHR '' ''" "c \<noteq> CHR '':''"
    using fmt_08X_hd[of ofs] by (cases "fmt_08X ofs") auto
  show ?thesis using True c(2,3) unfolding r c(1) by (cases s) (simp add: anchor_step_def)
next
  case False
  then obtain rest where r: "render_line ofs buf f = replicate 8 (CHR '' '') @ ''  '' @ rest"
    by (auto simp: render_line_def Let_def)
  have "replicate 8 (CHR '' '') = CHR '' '' # replicate 7 (CHR '' '')"
    by (simp add: numeral_eq_Suc)
  then show ?thesis using False unfolding r by (cases s) (simp add: anchor_step_def)
qed

lemma anchor_scan_snoc: "anchor_scan (cs @ [c]) = anchor_step (anchor_scan cs) c"
  by (simp add: anchor_scan_def)

lemma anchor_scan_labels:
  "anchor_scan (cs @ map (\<lambda>l. CHR '':'' # l @ [CHR 0x0A]) ns) = anchor_scan cs"
proof -
  have "foldl anchor_step s (map (\<lambda>l. CHR '':'' # l @ [CHR 0x0A]) ns) = s" for s
    by (induction ns) simp_all
  then show ?thesis by (simp add: anchor_scan_def)
qed


lemma go_rem_nonneg: "0 \<le> a \<Longrightarrow> 0 \<le> go_rem a 16"
  by (simp add: go_rem_def sgn_if)

lemma go_rem_dvd: "16 dvd a \<Longrightarrow> go_rem a 16 = 0"
  by (simp add: go_rem_def)

lemma i64_dvd: "(16::int) dvd x \<Longrightarrow> 16 dvd i64 x"
proof -
  assume x: "16 dvd x"
  have a: "(16::int) dvd 2 ^ 63" by simp
  have b: "(16::int) dvd 2 ^ 64" by simp
  have "16 dvd (x + 2 ^ 63) mod 2 ^ 64"
    using x a b by (simp add: dvd_mod)
  then have "16 dvd (x + 2 ^ 63) mod 2 ^ 64 - 2 ^ 63" using a by (rule dvd_diff)
  then show ?thesis
    by (simp add: i64_def signed_take_bit_eq_take_bit_shift take_bit_eq_mod)
qed

lemma i64_less: "i64 x < 2 ^ 63"
  using signed_take_bit_int_less_exp[of 63 x] by (simp add: i64_def)

lemma next_line_dvd: "0 \<le> go_rem a 16 \<Longrightarrow> 16 dvd a + (16 - go_rem a 16)"
proof (cases "0 \<le> a")
  case True
  then have "go_rem a 16 = a mod 16" by (simp add: go_rem_def sgn_if)
  moreover have "16 dvd a + (16 - a mod 16)" by presburger
  ultimately show ?thesis by simp
next
  case False
  assume "0 \<le> go_rem a 16"
  with False have "\<bar>a\<bar> mod 16 \<le> 0" by (simp add: go_rem_def sgn_if)
  then have z: "\<bar>a\<bar> mod 16 = 0" by (smt (verit) pos_mod_sign)
  then have "16 dvd \<bar>a\<bar>" by (simp add: dvd_eq_mod_eq_0)
  then have "16 dvd a" by simp
  moreover have "go_rem a 16 = 0" using z by (simp add: go_rem_def)
  ultimately show ?thesis by simp
qed

lemma want_next_rem:
  assumes "0 \<le> go_rem (b_ofs (dbuf d)) 16"
  shows "0 \<le> go_rem (i64 (b_ofs (dbuf d) + want_of d)) 16"
proof (cases "Ofs (labelIt d) > 0 \<and> i64 (b_ofs (dbuf d) + (16 - go_rem (b_ofs (dbuf d)) 16)) > Ofs (labelIt d)")
  case True
  then have w: "want_of d = Ofs (labelIt d) - b_ofs (dbuf d)" by (simp add: want_of_def Let_def)
  have "Ofs (labelIt d) < 2 ^ 63"
    using True i64_less[of "b_ofs (dbuf d) + (16 - go_rem (b_ofs (dbuf d)) 16)"] by linarith
  with True have "i64 (Ofs (labelIt d)) = Ofs (labelIt d)" by (intro i64_id) simp_all
  with True show ?thesis unfolding w by (simp add: go_rem_nonneg)
next
  case False
  then have w: "want_of d = 16 - go_rem (b_ofs (dbuf d)) 16" by (auto simp: want_of_def Let_def)
  show ?thesis unfolding w using go_rem_dvd[OF i64_dvd[OF next_line_dvd[OF assms]]] by simp
qed

definition dumper_inv :: "Dumper \<Rightarrow> bool" where
  "dumper_inv d \<longleftrightarrow>
     fst (anchor_scan (w d)) \<and> 0 \<le> nextOff d
     \<and> (snd (anchor_scan (w d)) \<longrightarrow> writePending d \<or> 0 < b_have (dbuf d))"

definition loop_inv :: "byte list \<Rightarrow> Dumper \<Rightarrow> bool" where
  "loop_inv p d \<longleftrightarrow>
     fst (anchor_scan (w d)) \<and> 0 \<le> nextOff d \<and> 0 \<le> go_rem (b_ofs (dbuf d)) 16
     \<and> (snd (anchor_scan (w d)) \<longrightarrow> writePending d \<or> 0 < b_have (dbuf d) \<or> p \<noteq> [])"

lemma writeLabelsIfNeeded_fields [simp]:
  "anchor_scan (w (writeLabelsIfNeeded d)) = anchor_scan (w d)"
  "writePending (writeLabelsIfNeeded d) = writePending d"
  "wroteAnything (writeLabelsIfNeeded d) = wroteAnything d"
  "nextOff (writeLabelsIfNeeded d) = nextOff d"
  "dbuf (writeLabelsIfNeeded d) = dbuf d"
  by (simp_all add: writeLabelsIfNeeded_def anchor_scan_labels)

lemma writeLine_fields [simp]:
  "anchor_scan (w (writeLine f d)) = (fst (anchor_scan (w d)), \<not> (f \<or> go_rem (b_ofs (dbuf d)) 16 = 0))"
  "writePending (writeLine f d) = writePending d"
  "wroteAnything (writeLine f d) = wroteAnything d"
  "nextOff (writeLine f d) = nextOff d"
  "b_have (dbuf (writeLine f d)) = 0"
  "b_ofs (dbuf (writeLine f d)) = i64 (b_ofs (dbuf d) + int (b_have (dbuf d)))"
  by (simp_all add: writeLine_def take_buf_def anchor_scan_snoc anchor_step_line)

lemma wrapUp_inv:
  assumes "dumper_inv d"
  shows "fst (anchor_scan (w (wrapUp d)))" "\<not> snd (anchor_scan (w (wrapUp d)))"
    "nextOff (wrapUp d) = nextOff d" "b_have (dbuf (wrapUp d)) = 0"
    "wroteAnything (wrapUp d) = wroteAnything d"
  using assms by (auto simp: wrapUp_def dumper_inv_def)

lemma honorSeekIfNeeded_inv:
  assumes "dumper_inv d" "honorSeekIfNeeded d = Inr d'"
  shows "dumper_inv d' \<and> b_ofs (dbuf d') = nextOff d'"
proof (cases "b_ofs (dbuf d) = nextOff d")
  case True
  with assms show ?thesis by (simp add: honorSeekIfNeeded_def)
next
  case False
  note W = wrapUp_inv[OF assms(1)]
  obtain ok where ok: "anchor_scan (w (wrapUp d)) = (ok, False)" "ok"
    using W(1,2) by (cases "anchor_scan (w (wrapUp d))") auto
  from assms(1) have n: "0 \<le> nextOff d" by (simp add: dumper_inv_def)
  show ?thesis
    using assms(2) False W(3,4) ok n
    by (auto simp: honorSeekIfNeeded_def Let_def set_buf_def dumper_inv_def anchor_scan_snoc
        split: if_splits)
qed

lemma emit_inv:
  assumes "fst (anchor_scan (w d))" "0 \<le> go_rem (b_ofs (dbuf d)) 16"
  shows "fst (anchor_scan (w (emit d)))" "nextOff (emit d) = nextOff d"
    "0 < b_have (dbuf d) \<Longrightarrow> snd (anchor_scan (w (emit d))) \<Longrightarrow> writePending (emit d)"
    "0 < b_have (dbuf d) \<Longrightarrow> b_ofs (dbuf (emit d)) = i64 (b_ofs (dbuf d) + int (b_have (dbuf d)))"
    "b_have (dbuf d) = 0 \<Longrightarrow> dbuf (emit d) = dbuf d \<and> anchor_scan (w (emit d)) = anchor_scan (w d)"
  using assms by (auto simp: emit_def Let_def)

lemma Write_loop_inv:
  "loop_inv p d \<Longrightarrow> Write_loop p d = Inr d' \<Longrightarrow> dumper_inv d'"
proof (induction p d rule: Write_loop.induct)
  case (1 p d)
  show ?case
  proof (cases "p = []")
    case True
    with 1(3,4) show ?thesis by (simp add: Write_loop.simps loop_inv_def dumper_inv_def)
  next
    case False
    show ?thesis
    proof (cases "fill (dbuf d) p (want_of d)")
      case (Inl e)
      with False 1(4) show ?thesis by (simp add: Write_loop.simps[of p])
    next
      case (Inr bn)
      obtain b n where bn: "bn = (b, n)" by (cases bn)
      note F = fill_Inr[OF Inr[unfolded bn]]
      from 1(3) have L: "fst (anchor_scan (w d))" "0 \<le> nextOff d" "0 \<le> go_rem (b_ofs (dbuf d)) 16"
        "snd (anchor_scan (w d)) \<Longrightarrow> writePending d \<or> 0 < b_have (dbuf d) \<or> p \<noteq> []"
        by (auto simp: loop_inv_def)
      let ?d0 = "d\<lparr>dbuf := b\<rparr>"
      have d0: "fst (anchor_scan (w ?d0))" "0 \<le> go_rem (b_ofs (dbuf ?d0)) 16"
        using L F by simp_all
      show ?thesis
      proof (cases "int (b_have b) = want_of d")
        case True
        note E = emit_inv[OF d0]
        have "loop_inv (drop n p) (emit ?d0)"
        proof (cases "b_have b = 0")
          case z: True
          from F have "b_have b = b_have (dbuf d) + n" by blast
          with z have "n = 0" by simp
          with False E(1,2,5) z L d0 show ?thesis by (simp add: loop_inv_def)
        next
          case nz: False
          have "b_ofs (dbuf (emit ?d0)) = i64 (b_ofs (dbuf d) + want_of d)"
            using E(4) nz True F by simp
          then have "0 \<le> go_rem (b_ofs (dbuf (emit ?d0))) 16"
            using want_next_rem[OF L(3)] by simp
          with E(1,2,3) nz L show ?thesis by (auto simp: loop_inv_def)
        qed
        moreover have "Write_loop (drop n p) (emit ?d0) = Inr d'"
          using 1(4) False Inr bn True by (simp add: Write_loop.simps[of p])
        ultimately show ?thesis using 1(1)[OF False Inr[unfolded bn] refl True] by simp
      next
        case F2: False
        have "loop_inv (drop n p) ?d0"
        proof (cases "drop n p = []")
          case True
          with False have "0 < n" by (cases n) auto
          with F have "0 < b_have b" by simp
          with L d0 show ?thesis by (simp add: loop_inv_def)
        next
          case False
          with L d0 show ?thesis by (simp add: loop_inv_def)
        qed
        moreover have "Write_loop (drop n p) ?d0 = Inr d'"
          using 1(4) False Inr bn F2 by (simp add: Write_loop.simps[of p])
        ultimately show ?thesis using 1(2)[OF False Inr[unfolded bn] refl F2] by simp
      qed
    qed
  qed
qed

lemma Dumper_Write_inv:
  assumes "dumper_inv d" "Dumper_Write p d = Inr (n, d')"
  shows "dumper_inv d'"
proof -
  from assms(2) obtain d1 where h: "honorSeekIfNeeded d = Inr d1"
    and l: "Write_loop p (d1\<lparr>writePending := True\<rparr>) = Inr d'"
    by (auto simp: Dumper_Write_def split: sum.splits)
  from honorSeekIfNeeded_inv[OF assms(1) h]
  have "loop_inv p (d1\<lparr>writePending := True\<rparr>)"
    by (simp add: loop_inv_def dumper_inv_def go_rem_nonneg)
  then show ?thesis using l by (rule Write_loop_inv)
qed

lemma Dumper_Seek_inv: "dumper_inv d \<Longrightarrow> dumper_inv (snd (Dumper_Seek ofs whence d))"
  by (auto simp: Dumper_Seek_def Let_def dumper_inv_def)

lemma NewDumper_inv: "dumper_inv (NewDumper ls)"
  by (simp add: NewDumper_def dumper_inv_def anchor_scan_def)

lemma run_ops_inv: "dumper_inv d \<Longrightarrow> run_ops ops d = Inr d' \<Longrightarrow> dumper_inv d'"
proof (induction ops d rule: run_ops.induct)
  case (1 d)
  then show ?case by simp
next
  case (2 p ops d)
  from 2(3) obtain n d1 where w1: "Dumper_Write p d = Inr (n, d1)" and r: "run_ops ops d1 = Inr d'"
    by (auto split: sum.splits)
  from Dumper_Write_inv[OF 2(2) w1] have "dumper_inv d1" .
  with 2(1) w1 r show ?case by simp
next
  case (3 ofs whence ops d)
  then show ?case using Dumper_Seek_inv by simp
qed

lemma Dumper_Close_anchored: "dumper_inv d \<Longrightarrow> anchored (w (Dumper_Close d))"
  using wrapUp_inv[of d]
  by (auto simp: Dumper_Close_def Let_def anchored_def split: prod.splits)

lemma anchor_step_cases:
  "anchor_step (ok, owed) c =
     (if is_blank c then (ok \<and> \<not> owed, False)
      else if no_offset c then (ok, True)
      else if shows_offset c then (ok, False)
      else (ok, owed))"
  by (auto simp: anchor_step_def is_blank_def no_offset_def shows_offset_def)

lemma anchor_fold_not_ok: "fst (foldl anchor_step (False, owed) cs) = False"
  by (induction cs arbitrary: owed) (simp_all add: anchor_step_cases)

lemma owed_is_paid:
  "foldl anchor_step (ok0, True) cs = (True, False) \<Longrightarrow>
   \<exists>j<length cs. shows_offset (cs ! j) \<and> (\<forall>k<j. \<not> is_blank (cs ! k))"
proof (induction cs arbitrary: ok0)
  case Nil
  then show ?case by simp
next
  case (Cons c cs)
  show ?case
  proof (cases "is_blank c")
    case True
    with Cons.prems have "foldl anchor_step (False, False) cs = (True, False)"
      by (simp add: anchor_step_cases)
    with anchor_fold_not_ok[of False cs] show ?thesis by simp
  next
    case nb: False
    show ?thesis
    proof (cases "shows_offset c")
      case True
      then have "shows_offset ((c # cs) ! 0) \<and> (\<forall>k<0. \<not> is_blank ((c # cs) ! k))" by simp
      then show ?thesis by blast
    next
      case False
      with nb Cons.prems have "foldl anchor_step (ok0, True) cs = (True, False)"
        by (simp add: anchor_step_cases split: if_splits)
      from Cons.IH[OF this] obtain j where j: "j < length cs" "shows_offset (cs ! j)"
        "\<forall>k<j. \<not> is_blank (cs ! k)" by blast
      have "\<forall>k<Suc j. \<not> is_blank ((c # cs) ! k)"
      proof (intro allI impI)
        fix k assume "k < Suc j"
        then show "\<not> is_blank ((c # cs) ! k)" using nb j(3) by (cases k) simp_all
      qed
      with j(1,2) have "Suc j < length (c # cs) \<and> shows_offset ((c # cs) ! Suc j)
          \<and> (\<forall>k<Suc j. \<not> is_blank ((c # cs) ! k))" by simp
      then show ?thesis by blast
    qed
  qed
qed

lemma anchor_fold_lines:
  "foldl anchor_step (ok0, owed0) cs = (True, False) \<Longrightarrow> i < length cs \<Longrightarrow> no_offset (cs ! i) \<Longrightarrow>
   \<exists>j. i < j \<and> j < length cs \<and> shows_offset (cs ! j) \<and> (\<forall>k. i < k \<and> k < j \<longrightarrow> \<not> is_blank (cs ! k))"
proof (induction cs arbitrary: ok0 owed0 i)
  case Nil
  then show ?case by simp
next
  case (Cons c cs)
  show ?case
  proof (cases i)
    case 0
    with Cons.prems have no: "no_offset c" by simp
    then have "\<not> is_blank c" by (simp add: no_offset_def is_blank_def)
    with no Cons.prems(1) have "foldl anchor_step (ok0, True) cs = (True, False)"
      by (simp add: anchor_step_cases)
    from owed_is_paid[OF this] obtain j where j: "j < length cs" "shows_offset (cs ! j)"
      "\<forall>k<j. \<not> is_blank (cs ! k)" by blast
    have "\<forall>k. 0 < k \<and> k < Suc j \<longrightarrow> \<not> is_blank ((c # cs) ! k)"
    proof (intro allI impI)
      fix k assume "0 < k \<and> k < Suc j"
      then show "\<not> is_blank ((c # cs) ! k)" using j(3) by (cases k) simp_all
    qed
    with j(1,2) 0 have "i < Suc j \<and> Suc j < length (c # cs) \<and> shows_offset ((c # cs) ! Suc j)
        \<and> (\<forall>k. i < k \<and> k < Suc j \<longrightarrow> \<not> is_blank ((c # cs) ! k))" by simp
    then show ?thesis by blast
  next
    case (Suc i')
    obtain ok1 owed1 where s1: "anchor_step (ok0, owed0) c = (ok1, owed1)"
      by (cases "anchor_step (ok0, owed0) c")
    with Cons.prems(1) have f: "foldl anchor_step (ok1, owed1) cs = (True, False)" by simp
    from Cons.prems(2,3) Suc have i': "i' < length cs" "no_offset (cs ! i')" by simp_all
    from Cons.IH[OF f i'] obtain j where j: "i' < j" "j < length cs" "shows_offset (cs ! j)"
      "\<forall>k. i' < k \<and> k < j \<longrightarrow> \<not> is_blank (cs ! k)" by blast
    have "\<forall>k. i < k \<and> k < Suc j \<longrightarrow> \<not> is_blank ((c # cs) ! k)"
    proof (intro allI impI)
      fix k assume "i < k \<and> k < Suc j"
      then show "\<not> is_blank ((c # cs) ! k)" using j(4) Suc by (cases k) simp_all
    qed
    with j(1,2,3) Suc have "i < Suc j \<and> Suc j < length (c # cs) \<and> shows_offset ((c # cs) ! Suc j)
        \<and> (\<forall>k. i < k \<and> k < Suc j \<longrightarrow> \<not> is_blank ((c # cs) ! k))" by simp
    then show ?thesis by blast
  qed
qed

lemma anchored_lines:
  assumes "anchored cs" "i < length cs" "no_offset (cs ! i)"
  shows "\<exists>j. i < j \<and> j < length cs \<and> shows_offset (cs ! j) \<and> (\<forall>k. i < k \<and> k < j \<longrightarrow> \<not> is_blank (cs ! k))"
proof -
  from assms(1) have "foldl anchor_step (True, False) cs = (True, False)"
    by (auto simp: anchored_def anchor_scan_def split: prod.splits)
  from anchor_fold_lines[OF this assms(2,3)] show ?thesis .
qed


section \<open>The decoder: lemmas\<close>

lemma label_line_data:
  "decodeLine r = (Inr (k, h, dt, l), rest) \<Longrightarrow> l \<noteq> [] \<Longrightarrow> dt = [] \<and> \<not> h"
  by (auto simp: decodeLine_def scan_text_def scanLine_def scanData_def Let_def
      split: if_splits sum.splits prod.splits)

lemma handed_over_step:
  assumes "decodeLine r = (Inr rec, rest)"
    and "read_lines n rest = Some (recs, tail)"
    and "\<forall>rec\<in>set recs. bears_offset rec \<longrightarrow> line_bytes rec = []"
    and "bears_offset rec \<longrightarrow> line_bytes rec = []"
    and "handed_over (pending @ line_bytes rec) d2 x d' recs tail"
    and "nextData d2 = nextData d" "nextOffset d2 = nextOffset d"
  shows "\<exists>n recs tail. read_lines n r = Some (recs, tail)
      \<and> (\<forall>rec\<in>set recs. bears_offset rec \<longrightarrow> line_bytes rec = [])
      \<and> handed_over pending d x d' recs tail"
proof -
  have 1: "read_lines (Suc n) r = Some (rec # recs, tail)" using assms(1,2) by simp
  have 2: "\<forall>rec\<in>set (rec # recs). bears_offset rec \<longrightarrow> line_bytes rec = []"
    using assms(3,4) by simp
  have 3: "handed_over pending d x d' (rec # recs) tail"
    using assms(5,6,7) by (simp add: handed_over_def Let_def)
  from 1 2 3 show ?thesis by blast
qed

lemma nextContiguous_loop_handed_over:
  assumes "nextContiguous_loop pending resolv d = (x, d')"
  shows "\<exists>n recs tail. read_lines n (rd d) = Some (recs, tail)
      \<and> (\<forall>rec\<in>set recs. bears_offset rec \<longrightarrow> line_bytes rec = [])
      \<and> handed_over pending d x d' recs tail"
  using assms
proof (induction "length (rd d)" arbitrary: pending resolv d rule: less_induct)
  case less
  let ?G = "\<exists>n recs tail. read_lines n (rd d) = Some (recs, tail)
      \<and> (\<forall>rec\<in>set recs. bears_offset rec \<longrightarrow> line_bytes rec = [])
      \<and> handed_over pending d x d' recs tail"
  obtain y rest where dl: "decodeLine (rd d) = (y, rest)" by (cases "decodeLine (rd d)")
  show ?G
  proof (cases y)
    case (Inl e)
    with dl less.prems have r: "rd d' = rest" "x = (if pending = [] then Inl e else Inr pending)"
      "nextData d' = nextData d" "nextOffset d' = nextOffset d"
      by (auto simp: ncl_error split: if_splits)
    have "read_lines 0 (rd d) = Some ([], rd d)" by simp
    moreover have "handed_over pending d x d' [] (rd d)"
      using dl Inl r by (simp add: handed_over_def)
    ultimately show ?G by (metis empty_iff list.set(1))
  next
    case (Inr rec)
    obtain lineOfs hasOfs ldata label where rec: "rec = (lineOfs, hasOfs, ldata, label)"
      by (cases rec) auto
    note dl' = dl[unfolded Inr rec]
    have dlr: "decodeLine (rd d) = (Inr rec, rest)" using dl Inr by simp
    have lt: "length rest < length (rd d)" using decodeLine_shorter[OF dl'] .
    have IH: "\<And>pending resolv d2. rd d2 = rest \<Longrightarrow>
        nextContiguous_loop pending resolv d2 = (x, d') \<Longrightarrow>
        \<exists>n recs tail. read_lines n rest = Some (recs, tail)
          \<and> (\<forall>rec\<in>set recs. bears_offset rec \<longrightarrow> line_bytes rec = [])
          \<and> handed_over pending d2 x d' recs tail"
      using less.hyps lt by metis
    have cont: "\<And>pending' resolv' d2. rd d2 = rest \<Longrightarrow>
        nextContiguous_loop pending' resolv' d2 = (x, d') \<Longrightarrow>
        pending' = pending @ line_bytes rec \<Longrightarrow> bears_offset rec \<longrightarrow> line_bytes rec = [] \<Longrightarrow>
        nextData d2 = nextData d \<Longrightarrow> nextOffset d2 = nextOffset d \<Longrightarrow> ?G"
    proof -
      fix pending' resolv' d2
      assume a: "rd d2 = rest" "nextContiguous_loop pending' resolv' d2 = (x, d')"
        "pending' = pending @ line_bytes rec" "bears_offset rec \<longrightarrow> line_bytes rec = []"
        "nextData d2 = nextData d" "nextOffset d2 = nextOffset d"
      from IH[OF a(1,2)] obtain n recs tail where
        "read_lines n rest = Some (recs, tail)"
        "\<forall>rec\<in>set recs. bears_offset rec \<longrightarrow> line_bytes rec = []"
        "handed_over pending' d2 x d' recs tail" by blast
      then show ?G
        using handed_over_step[OF dlr _ _ a(4) _ a(5,6), of n recs tail pending x d'] a(3) by simp
    qed
    show ?G
    proof (cases "label \<noteq> []")
      case True
      from label_line_data[OF dl' True] have e: "ldata = []" "\<not> hasOfs" by simp_all
      from less.prems have nc: "nextContiguous_loop pending (resolv @ [(label, length (data d))]) (d\<lparr>rd := rest\<rparr>) = (x, d')"
        by (simp add: ncl_label[OF dl' True])
      show ?G
        by (intro cont[OF _ nc]) (simp_all add: rec line_bytes_def bears_offset_def e)
    next
      case False
      then have lab: "label = []" by simp
      show ?G
      proof (cases hasOfs)
        case True
        then have h: "hasOfs = True" by simp
        note eq = ncl_offset[OF dl'[unfolded lab h], of pending resolv]
        define pendOfs where "pendOfs = i64 (lineOfs - int (length pending))"
        define d1 where "d1 = d\<lparr>rd := rest, labels := commit resolv pendOfs (labels d)\<rparr>"
        show ?G
        proof (cases "pending = [] \<and> ldata = [] \<and> \<not> pendOfs < i64 (readyOfs d + int (length (data d)))
            \<and> \<not> (\<not> started d \<or> pendOfs > i64 (readyOfs d + int (length (data d))))")
          case True
          then have nc: "nextContiguous_loop [] [] (d1\<lparr>readyOfs := pendOfs\<rparr>) = (x, d')"
            using less.prems[unfolded eq] by (auto simp: Let_def pendOfs_def d1_def)
          from True have "pending = []" "ldata = []" by simp_all
          then show ?G
            by (intro cont[OF _ nc]) (simp_all add: rec line_bytes_def bears_offset_def d1_def)
        next
          case False
          have "read_lines 0 (rd d) = Some ([], rd d)" by simp
          moreover have "handed_over pending d x d' [] (rd d)"
            using less.prems[unfolded eq] False dl'[unfolded lab h]
            by (auto simp: handed_over_def Let_def pendOfs_def split: if_splits)
          ultimately show ?G by (metis empty_iff list.set(1))
        qed
      next
        case False
        then have nh: "hasOfs = False" by simp
        from less.prems have nc: "nextContiguous_loop (pending @ ldata) resolv (d\<lparr>rd := rest\<rparr>) = (x, d')"
          by (simp add: ncl_plain[OF dl'[unfolded lab nh]])
        show ?G
          by (intro cont[OF _ nc]) (simp_all add: rec line_bytes_def bears_offset_def nh)
      qed
    qed
  qed
qed


lemma Read_loop_pulls:
  "Read_loop plen p d = ((p', e), d') \<Longrightarrow>
   p' = p @ take (plen - length p) (data d @ concat (map snd (Read_pulls plen p d)))
   \<and> (\<forall>(s, bs)\<in>set (Read_pulls plen p d). data s = [] \<and> bs \<noteq> [] \<and> fst (nextContiguous s) = Inr bs)"
proof (induction plen p d rule: Read_loop.induct)
  case (1 plen p d)
  show ?case
  proof (cases "length p < plen")
    case False
    then have "Read_pulls plen p d = []" by (subst Read_pulls.simps) simp
    moreover from "1.prems" False have "p' = p" by (subst (asm) Read_loop.simps) simp
    ultimately show ?thesis using False by simp
  next
    case lt: True
    show ?thesis
    proof (cases "length (data d) > 0")
      case True
      define nn where "nn = min (plen - length p) (length (data d))"
      define shifted where "shifted = drop nn (data d) @ drop (length (data d) - nn) (data d)"
      let ?d2 = "d\<lparr>data := drop nn shifted, readyOfs := i64 (readyOfs d + int nn)\<rparr>"
      from "1.prems" lt True
      have r: "Read_loop plen (p @ take nn (data d)) ?d2 = ((p', e), d')"
        by (subst (asm) Read_loop.simps) (simp add: Let_def nn_def shifted_def)
      have pl: "Read_pulls plen p d = Read_pulls plen (p @ take nn (data d)) ?d2"
        using lt True by (subst Read_pulls.simps) (simp add: Let_def nn_def shifted_def)
      note IH = "1.IH"(1)[OF lt True nn_def shifted_def r]
      let ?X = "concat (map snd (Read_pulls plen p d))"
      have "take nn (data d) @ take (plen - length (p @ take nn (data d))) (data ?d2 @ ?X)
            = take (plen - length p) (data d @ ?X)"
      proof (cases "nn = length (data d)")
        case True
        then have "data ?d2 = []" by (simp add: shifted_def)
        moreover have "length (data d) \<le> plen - length p" using True by (simp add: nn_def)
        ultimately show ?thesis using True by simp
      next
        case False
        then have "nn = plen - length p" "nn < length (data d)"
          by (auto simp: nn_def min_def split: if_splits)
        then show ?thesis by simp
      qed
      with IH pl show ?thesis by simp
    next
      case False
      then have em: "data d = []" by simp
      obtain x d1 where nc: "nextContiguous d = (x, d1)" by (cases "nextContiguous d")
      show ?thesis
      proof (cases x)
        case (Inl er)
        with "1.prems" lt False nc have "p' = p"
          by (subst (asm) Read_loop.simps) auto
        moreover have "Read_pulls plen p d = []"
          using lt False nc Inl by (subst Read_pulls.simps) simp
        ultimately show ?thesis using em by simp
      next
        case (Inr bs)
        show ?thesis
        proof (cases "bs = []")
          case True
          with "1.prems" lt False nc Inr have "p' = p"
            by (subst (asm) Read_loop.simps) auto
          moreover have "Read_pulls plen p d = []"
            using lt False nc Inr True by (subst Read_pulls.simps) simp
          ultimately show ?thesis using em by simp
        next
          case ne: False
          with "1.prems" lt False nc Inr
          have r: "Read_loop plen p (d1\<lparr>data := bs\<rparr>) = ((p', e), d')"
            by (subst (asm) Read_loop.simps) simp
          have pl: "Read_pulls plen p d = (d, bs) # Read_pulls plen p (d1\<lparr>data := bs\<rparr>)"
            using lt False nc Inr ne by (subst Read_pulls.simps) simp
          note IH = "1.IH"(2)[OF lt False nc[symmetric] Inr ne r]
          from IH pl em nc Inr ne show ?thesis by simp
        qed
      qed
    qed
  qed
qed

lemma Decoder_Next_current:
  "Decoder_Next d = (Inr k, d') \<Longrightarrow> started d \<Longrightarrow> nextData d \<noteq> [] \<or> nextOffset d \<noteq> 0 \<Longrightarrow>
   data d' = nextData d \<and> readyOfs d' = nextOffset d \<and> k = i64 (nextOffset d - readyOfs d)"
  by (auto simp: Decoder_Next_def Let_def split: option.splits if_splits)

lemma Decoder_Read_pulls:
  assumes "Decoder_Read plen r = ((p, e), r')"
  shows "p = (if nextOffset r > 0 then [] else take plen (data r @ concat (map snd (Read_pulls plen [] r))))"
    and "\<forall>(s, bs)\<in>set (Read_pulls plen [] r).
           data s = [] \<and> bs \<noteq> [] \<and> fst (nextContiguous_loop [] [] (s\<lparr>started := True\<rparr>)) = Inr bs"
proof -
  obtain p1 e1 r1 where rl: "Read_loop plen [] r = ((p1, e1), r1)"
    by (cases "Read_loop plen [] r") auto
  note P = Read_loop_pulls[OF rl]
  from P show "\<forall>(s, bs)\<in>set (Read_pulls plen [] r).
           data s = [] \<and> bs \<noteq> [] \<and> fst (nextContiguous_loop [] [] (s\<lparr>started := True\<rparr>)) = Inr bs"
    by (simp add: nextContiguous_def)
  show "p = (if nextOffset r > 0 then [] else take plen (data r @ concat (map snd (Read_pulls plen [] r))))"
  proof (cases "nextOffset r > 0")
    case True
    with assms show ?thesis by (simp add: Decoder_Read_def)
  next
    case False
    with assms rl have "p = p1"
      by (auto simp: Decoder_Read_def split: option.splits if_splits)
    with P False show ?thesis by simp
  qed
qed

section \<open>The claims\<close>

text \<open>
  C4, as the code has it. On the two lines of the gap scenario the first \<open>Next\<close> skips
  \<open>0x10\<close> bytes, the first segment has 16 bytes from offset \<open>0x10\<close>, the second
  \<open>Next\<close> reports a gap of \<open>0x20\<close> bytes (the first segment ends at \<open>0x20\<close> and the
  second line starts at \<open>0x40\<close>), the second segment has \<open>0xC\<close> bytes from offset
  \<open>0x40\<close>, and then \<open>Next\<close> reports the end of the input.
\<close>

theorem gap_scenario_result:
  "gap_scenario =
     [Skipped 0x10,
      Segment 0x10 [0x00, 0x01, 0x02, 0x03, 0x04, 0x05, 0x06, 0x07,
                    0x08, 0x09, 0x0A, 0x0B, 0x0C, 0x0D, 0x0E, 0x0F],
      Skipped 0x20,
      Segment 0x40 [0x20, 0x01, 0x02, 0x03, 0x04, 0x05, 0x06, 0x07, 0x08, 0x09, 0x0A, 0x0B],
      Failed EOF]"
  by code_simp

text \<open>C4 as stated fails: the gap reported between the two segments is not \<open>0x14\<close>.\<close>

theorem gap_scenario_counterexample: "gap_scenario ! 2 \<noteq> Skipped 0x14"
  by code_simp

text \<open>
  C2 on the code. The label \<open>L\<close> follows two pending bytes and the anchoring line has the
  offset \<open>0x10\<close>, so the claim has it resolve to \<open>0x10\<close>. The decoder records the label
  with \<open>len(d.data)\<close>, which is 0 here, not with the number of pending bytes, and commits
  it at \<open>0x10 - 2 + 0 = 0x0E\<close>.
\<close>

theorem forward_label_resolves_early:
  "Labels_Get (labels (snd (ReadAll (NewDecoder forward_label_input)))) ''L'' = Some 0x0E"
  by code_simp

text \<open>
  C6 on the code. In a byte run three digits in a row give the error "too many
  characters", but four digits make \<open>hex.Decode\<close> store a second byte into a slice of
  length one, and a seventeenth byte pair makes the final \<open>data[:i+1]\<close> exceed the
  capacity 16: both panic.
\<close>

theorem long_digit_run_panics:
  "decodeLine ''0010  012\<newline>'' = (Inl TooManyCharacters, [])
   \<and> decodeLine ''0010  0102\<newline>'' = (Inl Panic, [])
   \<and> decodeLine ''0010  00 01 02 03 04 05 06 07  08 09 0A 0B 0C 0D 0E 0F 10\<newline>''
       = (Inl Panic, [])"
  by code_simp

theorem long_digit_run_panics_witness:
  "fst (decodeLine ''0010  0102\<newline>'') = Inl Panic"
  using long_digit_run_panics by simp

text \<open>
  C10. A line \<open>l\<close> (the newline included) whose first character is neither a hex digit
  nor \<open>:\<close>, and which has no hex digit after its leading spaces and hyphens, scans to
  the record with no offset, no data and no label, without an error.
\<close>

theorem unrecognized_line_is_noop:
  assumes "l \<noteq> []" and "\<not> isHex (hd l)" and "hd l \<noteq> CHR '':''"
    and "case dropWhile sep l of [] \<Rightarrow> True | c # _ \<Rightarrow> \<not> isHex c"
  shows "scan_text l = Inr (0, False, [], [])"
proof -
  from assms(1) have h: "l ! 0 = hd l" by (cases l) auto
  have "\<not> isHex (ch (skipSpacesOrHyphen (pos l 0)))"
    using assms(4)
    by (cases "dropWhile sep l")
       (simp_all add: skipSpacesOrHyphen_ch[OF assms(1)] del: dropWhile_eq_Nil_conv)
  then show ?thesis
    using assms(1-3) h
    by (simp add: scan_text_def start_line_pos scanLine_def scanData_def Let_def)
qed


theorem unrecognized_line_is_noop_witness:
  "\<not> isHex (hd ''abcd ef\<newline>'') \<and> scan_text ''abcd ef\<newline>'' = Inr (0, False, [], [])
   \<and> scan_text ''  -- hello world\<newline>'' = Inr (0, False, [], [])
   \<and> scan_text ''\<newline>'' = Inr (0, False, [], [])"
  using unrecognized_line_is_noop [of "''abcd ef\<newline>''"]
    unrecognized_line_is_noop [of "''  -- hello world\<newline>''"]
    unrecognized_line_is_noop [of "''\<newline>''"]
  by (simp add: isHex_def sep_def)








text \<open>
  C9. After any sequence of \<open>Set\<close> calls on an empty table, the iterator \<open>iter(ofs)\<close>
  presents the offsets that have labels and are not below \<open>ofs\<close>, each once and in
  strictly ascending order, each with exactly the names bound to it, in strictly
  ascending lexicographic order; \<open>Get\<close> returns the offset of the last \<open>Set\<close> for the
  name; and the dumper writes the label lines of the iterator's current offset in the
  iterator's order.
\<close>

theorem label_order:
  "let l = Set_all ops Labels_zero; es = entries (Labels_iter (Some l) ofs)
   in sorted_wrt (<) (map fst es)
      \<and> (\<forall>(k, ns)\<in>set es. sorted_wrt (<) ns \<and> set ns = {n. Labels_Get l n = Some k})
      \<and> set (map fst es) = {k. ofs \<le> k \<and> (\<exists>n. Labels_Get l n = Some k)}
      \<and> Labels_Get l name = map_of (rev ops) name
      \<and> (\<forall>d. w (writeLabelsIfNeeded d)
               = w d @ (if b_ofs (dbuf d) = Ofs (labelIt d)
                        then map (\<lambda>n. '':'' @ n @ [CHR 0x0A]) (Names (labelIt d)) else []))"
proof -
  define l where "l = Set_all ops Labels_zero"
  have w: "wf_labels l" unfolding l_def by (rule wf_Set_all[OF wf_zero])
  then have W: "distinct (map fst (lmap l))" "sorted (offsets l)" "distinct (offsets l)"
      "set (offsets l) = snd ` set (lmap l)" "dom (offLabels l) = set (offsets l)"
      "\<And>k ns. offLabels l k = Some ns \<Longrightarrow> sorted ns \<and> distinct ns \<and> set ns = {n. (n, k) \<in> set (lmap l)}"
    by (auto simp: wf_labels_def)
  have get: "\<And>n k. Labels_Get l n = Some k \<longleftrightarrow> (n, k) \<in> set (lmap l)"
    using W(1) by (simp add: Labels_Get_def)
  let ?ks = "filter (\<lambda>k. ofs \<le> k) (offsets l)"
  have es: "entries (Labels_iter (Some l) ofs) = map (\<lambda>k. (k, names_at (offLabels l) k)) ?ks"
    by (rule entries_iter[OF w])
  have 1: "sorted_wrt (<) ?ks"
    using W(2,3) by (simp add: strict_sorted_iff sorted_wrt_filter)
  have 2: "sorted_wrt (<) (names_at (offLabels l) k) \<and> set (names_at (offLabels l) k) = {n. Labels_Get l n = Some k}"
    if "k \<in> set ?ks" for k
  proof -
    from that W(5) obtain ns where ns: "offLabels l k = Some ns" by auto
    with W(6)[OF ns] show ?thesis by (simp add: names_at_def strict_sorted_iff get)
  qed
  have 3: "set ?ks = {k. ofs \<le> k \<and> (\<exists>n. Labels_Get l n = Some k)}"
    using W(4) by (auto simp: get) force
  have "Labels_Get Labels_zero name = None" by (simp add: Labels_Get_def Labels_zero_def)
  then have 4: "Labels_Get l name = map_of (rev ops) name"
    unfolding l_def by (simp only: Get_Set_all) (simp split: option.splits)
  have m: "map fst (map (\<lambda>k. (k, names_at (offLabels l) k)) ?ks) = ?ks"
    by (simp add: comp_def)
  have 5: "\<forall>d. w (writeLabelsIfNeeded d)
               = w d @ (if b_ofs (dbuf d) = Ofs (labelIt d)
                        then map (\<lambda>n. '':'' @ n @ [CHR 0x0A]) (Names (labelIt d)) else [])"
    by (simp add: writeLabelsIfNeeded_def)
  show ?thesis
    unfolding Let_def l_def[symmetric] es m using 1 2 3 4 5 by auto
qed


theorem label_order_witness:
  "entries (Labels_iter (Some (Set_all test_ops Labels_zero)) 0)
     = [(5, [''ignore'']), (0x33, [''foo'']), (0x35, [''bar'', ''baz''])]
   \<and> sorted_wrt (<) (map fst (entries (Labels_iter (Some (Set_all test_ops Labels_zero)) 0)))
   \<and> Labels_Get (Set_all test_ops Labels_zero) ''foo'' = Some 0x33"
proof -
  have e: "entries (Labels_iter (Some (Set_all test_ops Labels_zero)) 0)
     = [(5, [''ignore'']), (0x33, [''foo'']), (0x35, [''bar'', ''baz''])]"
    by code_simp
  have "map_of (rev test_ops) ''foo'' = Some 0x33"
    by (simp add: test_ops_def)
  with label_order [of test_ops 0 "''foo''"] e show ?thesis
    by (simp add: Let_def)
qed

text \<open>
  C5, as the code has it. After \<open>Close\<close> a \<open>Write\<close> is not rejected: it does what the
  same \<open>Write\<close> does on the same dumper with the flag \<open>closed\<close> clear, the flag staying
  set. When it returns it reports \<open>n = len(p)\<close>, and the writer keeps what it held
  and may have been given more. A panic of the buffer is the only failure there is.
\<close>

theorem write_after_close_unchecked:
  "Dumper_Write p (Dumper_Close d)
     = (case Dumper_Write p ((Dumper_Close d)\<lparr>closed := False\<rparr>) of
          Inl e \<Rightarrow> Inl e
        | Inr (n, d') \<Rightarrow> Inr (n, d'\<lparr>closed := True\<rparr>))
   \<and> (case Dumper_Write p (Dumper_Close d) of
         Inl e \<Rightarrow> e = Panic
       | Inr (n, d') \<Rightarrow> n = length p \<and> closed d' \<and> (\<exists>out. w d' = w (Dumper_Close d) @ out))"
proof -
  let ?c = "Dumper_Close d"
  have c: "?c = (?c\<lparr>closed := False\<rparr>)\<lparr>closed := True\<rparr>"
    using Dumper_Close_closed[of d] by (cases ?c) simp
  have 1: "Dumper_Write p ?c
     = (case Dumper_Write p (?c\<lparr>closed := False\<rparr>) of
          Inl e \<Rightarrow> Inl e
        | Inr (n, d') \<Rightarrow> Inr (n, d'\<lparr>closed := True\<rparr>))"
    using Dumper_Write_closed[where p = p and d = "?c\<lparr>closed := False\<rparr>" and c = True] c
    by simp
  have 2: "(case Dumper_Write p ?c of
         Inl e \<Rightarrow> e = Panic
       | Inr (n, d') \<Rightarrow> n = length p \<and> closed d' \<and> (\<exists>out. w d' = w ?c @ out))"
  proof (cases "Dumper_Write p ?c")
    case (Inl e)
    then show ?thesis using Dumper_Write_result[where p = p and d = ?c] by simp
  next
    case (Inr nd)
    obtain n d' where nd: "nd = (n, d')" by (cases nd)
    from Inr nd 1 have "closed d'" by (auto split: sum.splits)
    then show ?thesis using Dumper_Write_result[where p = p and d = ?c] Inr nd by simp
  qed
  from 1 2 show ?thesis by (rule conjI)
qed

theorem write_after_close_unchecked_witness:
  "(case Dumper_Write (letters 0x61) (Dumper_Close (NewDumper None)) of
      Inl e \<Rightarrow> False
    | Inr (n, d') \<Rightarrow> n = 16 \<and> closed d'
        \<and> w d' = [''00000000  61 62 63 64 65 66 67 68  69 6A 6B 6C 6D 6E 6F 70  |abcdefghijklmnop|\<newline>''])"
proof -
  have "w (Dumper_Close (NewDumper None)) = []" by code_simp
  moreover have "(case Dumper_Write (letters 0x61) (Dumper_Close (NewDumper None)) of
      Inl e \<Rightarrow> False
    | Inr (n, d') \<Rightarrow> w d' = [''00000000  61 62 63 64 65 66 67 68  69 6A 6B 6C 6D 6E 6F 70  |abcdefghijklmnop|\<newline>''])"
    by code_simp
  ultimately show ?thesis
    using write_after_close_unchecked [where p = "letters 0x61" and d = "NewDumper None"]
    by (auto simp: letters_def split: sum.splits)
qed


text \<open>
  C5, as the claim states it, fails: sixteen bytes written, \<open>Close\<close>, sixteen more
  written. The second \<open>Write\<close> returns 16 and no error, and the writer receives a blank
  line and a data line.
\<close>

theorem write_after_close_counterexample:
  "write_after_close (letters 0x41) (letters 0x61)
     = Inr (16, [''\<newline>'',
         ''00000000  61 62 63 64 65 66 67 68  69 6A 6B 6C 6D 6E 6F 70  |abcdefghijklmnop|\<newline>''])"
  by code_simp


text \<open>
  C8. For every sequence of \<open>Write\<close> and \<open>Seek\<close> calls on a new dumper, with any label
  table, that ends with \<open>Close\<close> and does not panic: every data line written without
  an offset is followed by a later line that shows an offset, with no blank line (the
  flush of an honoured seek) in between, and so before the end of the output.
\<close>

theorem encoder_anchoring:
  assumes "dump_session ls ops = Inr out"
  shows "anchored out
    \<and> (\<forall>i<length out. no_offset (out ! i) \<longrightarrow>
          (\<exists>j. i < j \<and> j < length out \<and> shows_offset (out ! j)
               \<and> (\<forall>k. i < k \<and> k < j \<longrightarrow> \<not> is_blank (out ! k))))"
proof -
  from assms obtain d where r: "run_ops ops (NewDumper ls) = Inr d" and o: "out = w (Dumper_Close d)"
    by (auto simp: dump_session_def split: sum.splits)
  from run_ops_inv[OF NewDumper_inv r] have "dumper_inv d" .
  then have a: "anchored out" unfolding o by (rule Dumper_Close_anchored)
  with anchored_lines[OF a] show ?thesis by blast
qed

theorem encoder_anchoring_witness:
  "dump_session (Some session_labels) session_ops = Inr session_out
   \<and> no_offset (session_out ! 0) \<and> anchored session_out"
proof -
  have e: "dump_session (Some session_labels) session_ops = Inr session_out"
    by code_simp
  have n: "no_offset (session_out ! 0)"
    by (simp add: session_out_def no_offset_def)
  from encoder_anchoring [OF e] e n show ?thesis by simp
qed



end
